theory Spec2Isabelle
  imports Main "HOL-Library.Sublist" "HOL-Library.Product_Lexorder" "HOL-Library.Multiset"
begin

section \<open>Strings\<close>

text \<open>
  A Python string is modelled as a \<open>string\<close> whose characters are the code points of
  the Python string, all below 256; text with a higher code point is outside the
  model. \<open>length\<close> is \<open>len\<close>. \<open>is_space\<close> is \<open>str.isspace\<close> on these code points: 9-13,
  28-32, 133 (U+0085) and 160 (U+00A0); \<open>strip\<close> is \<open>str.strip\<close>, which removes leading
  and trailing white space.

  \<open>upper\<close> maps the letters a-z to A-Z and leaves every other character alone. It
  agrees with \<open>str.upper\<close> on ASCII strings (\<open>is_ascii\<close>) only: \<open>str.upper\<close> also maps
  other cased code points, some of them to two characters or to code points from 256
  on. What is proved about the comparison of upper-cased strings is therefore stated
  for ASCII strings.
\<close>

definition is_space :: "char \<Rightarrow> bool" where
  "is_space c =
     (let n = (of_char c :: nat)
      in (9 \<le> n \<and> n \<le> 13) \<or> (28 \<le> n \<and> n \<le> 32) \<or> n = 133 \<or> n = 160)"

definition strip :: "string \<Rightarrow> string" where
  "strip s = rev (dropWhile is_space (rev (dropWhile is_space s)))"

definition is_ascii :: "string \<Rightarrow> bool" where
  "is_ascii s = list_all (\<lambda>c. (of_char c :: nat) < 128) s"

definition upper_char :: "char \<Rightarrow> char" where
  "upper_char c = (let n = (of_char c :: nat) in if 97 \<le> n \<and> n \<le> 122 then char_of (n - 32) else c)"

definition upper :: "string \<Rightarrow> string" where
  "upper s = map upper_char s"

text \<open>Python truthiness of an optional string: \<open>None\<close> and \<open>""\<close> are falsy.\<close>

definition truthy :: "string option \<Rightarrow> bool" where
  "truthy v = (case v of None \<Rightarrow> False | Some s \<Rightarrow> s \<noteq> [])"

text \<open>\<open>v or ""\<close> for an optional string \<open>v\<close>.\<close>

definition or_empty :: "string option \<Rightarrow> string" where
  "or_empty v = (case v of None \<Rightarrow> [] | Some s \<Rightarrow> s)"

text \<open>\<open>str(v)\<close> inside an f-string: \<open>None\<close> prints as the word None.\<close>

definition fmt :: "string option \<Rightarrow> string" where
  "fmt v = (case v of None \<Rightarrow> ''None'' | Some s \<Rightarrow> s)"

text \<open>
  Python slicing \<open>xs[a:b]\<close>: a negative bound counts from the end, and both bounds
  are clipped to the list.
\<close>

definition py_slice :: "'a list \<Rightarrow> int \<Rightarrow> int \<Rightarrow> 'a list" where
  "py_slice xs a b =
     (let n = int (length xs);
          lo = (if a < 0 then max 0 (a + n) else min a n);
          hi = (if b < 0 then max 0 (b + n) else min b n)
      in take (nat (hi - lo)) (drop (nat lo) xs))"

datatype py_error = RuntimeError string | IndexError | KeyError string


section \<open>The data model\<close>

text \<open>
  A chunk is the JSON object written by \<open>chunk_docs.py\<close>: \<open>chunk_id\<close>, \<open>text\<close> and a
  \<open>meta\<close> object. The fields of \<open>meta\<close> and \<open>chunk_id\<close> are read with \<open>dict.get\<close>, so
  a missing key and a JSON null are both \<open>None\<close>; a chunk without a \<open>meta\<close> object has
  the meta whose fields are all \<open>None\<close> (\<open>item.get("meta", {})\<close>). For \<open>item_text\<close>,
  \<open>None\<close> is a chunk without the key \<open>text\<close>: \<open>item.get('text', '')\<close> is then empty and
  \<open>x["text"]\<close> raises \<open>KeyError\<close>. Field values are strings.
\<close>

record meta_info =
  doc_id :: "string option"
  ticker :: "string option"
  doc_type :: "string option"
  filing_date :: "string option"
  url :: "string option"
  source :: "string option"

record chunk =
  chunk_id :: "string option"
  item_text :: "string option"
  meta :: meta_info

text \<open>
  A hit is the pair of a similarity score and the chunk it resolved to; the third
  component \<open>m\<close> of the source's triple is \<open>meta\<close> of the chunk. Scores are values of a
  linear order (floats without NaN).
\<close>

type_synonym 's hit = "'s \<times> chunk"

definition hit_meta :: "'s hit \<Rightarrow> meta_info" where
  "hit_meta h = meta (snd h)"


section \<open>rag\_pipeline/ask.py\<close>

text \<open>
  \<open>parse_date\<close>: \<open>None\<close> for a missing or empty string, otherwise what
  \<open>datetime.strptime(s, "%Y-%m-%d")\<close> gives, with every exception turned into \<open>None\<close>.
  The library function is the parameter \<open>strptime\<close>; datetimes are values of a linear
  order.
\<close>

definition parse_date :: "(string \<Rightarrow> 'd option) \<Rightarrow> string option \<Rightarrow> 'd option" where
  "parse_date strptime s =
     (case s of None \<Rightarrow> None | Some v \<Rightarrow> if v = [] then None else strptime v)"

text \<open>
  Collecting the hits: a negative position is skipped, a position beyond the metadata
  store raises \<open>IndexError\<close>.
\<close>

fun collect_hits :: "chunk list \<Rightarrow> ('s \<times> int) list \<Rightarrow> py_error + 's hit list" where
  "collect_hits store [] = Inr []"
| "collect_hits store ((score, idx) # rest) =
     (if idx < 0 then collect_hits store rest
      else if int (length store) \<le> idx then Inl IndexError
      else (case collect_hits store rest of
              Inl e \<Rightarrow> Inl e
            | Inr hits \<Rightarrow> Inr ((score, store ! nat idx) # hits)))"

text \<open>The optional metadata filters; a filter argument that is \<open>None\<close> or empty is off.\<close>

definition filter_ticker :: "string option \<Rightarrow> 's hit list \<Rightarrow> 's hit list" where
  "filter_ticker arg hits =
     (if truthy arg
      then (let t = upper (strip (or_empty arg))
            in filter (\<lambda>h. upper (or_empty (ticker (hit_meta h))) = t) hits)
      else hits)"

definition filter_doc_type :: "string option \<Rightarrow> 's hit list \<Rightarrow> 's hit list" where
  "filter_doc_type arg hits =
     (if truthy arg
      then (let dt = upper (strip (or_empty arg))
            in filter (\<lambda>h. upper (or_empty (doc_type (hit_meta h))) = dt) hits)
      else hits)"

definition filter_hits :: "string option \<Rightarrow> string option \<Rightarrow> 's hit list \<Rightarrow> 's hit list" where
  "filter_hits ticker_arg doc_type_arg hits =
     filter_doc_type doc_type_arg (filter_ticker ticker_arg hits)"

text \<open>
  \<open>by_url\<close> is a \<open>defaultdict(list)\<close>: a dictionary that keeps its keys in insertion
  order, here an association list. \<open>by_url[k].append(h)\<close> extends the entry of \<open>k\<close>, or
  adds a new entry at the end.
\<close>

fun by_url_append :: "'k \<Rightarrow> 'h \<Rightarrow> ('k \<times> 'h list) list \<Rightarrow> ('k \<times> 'h list) list" where
  "by_url_append k h [] = [(k, [h])]"
| "by_url_append k h ((k', hs) # rest) =
     (if k = k' then (k', hs @ [h]) # rest else (k', hs) # by_url_append k h rest)"

definition group_by_url :: "'s hit list \<Rightarrow> (string option \<times> 's hit list) list" where
  "group_by_url hits = foldl (\<lambda>by_url h. by_url_append (url (hit_meta h)) h by_url) [] hits"

text \<open>\<open>by_url[k]\<close>: the entry of \<open>k\<close>, the empty list when there is none.\<close>

definition by_url_get :: "('k \<times> 'h list) list \<Rightarrow> 'k \<Rightarrow> 'h list" where
  "by_url_get by_url k = (case map_of by_url k of None \<Rightarrow> [] | Some hs \<Rightarrow> hs)"

text \<open>The latest parseable filing date among the chunks of one group, if any.\<close>

definition group_dmax :: "(string \<Rightarrow> 'd::linorder option) \<Rightarrow> 's hit list \<Rightarrow> 'd option" where
  "group_dmax strptime items =
     (case List.map_filter (\<lambda>x. parse_date strptime (filing_date (hit_meta x))) items of
        [] \<Rightarrow> None
      | d # ds \<Rightarrow> Some (fold max ds d))"

text \<open>
  One round of the loop over \<open>by_url.items()\<close>; the state is the pair
  \<open>(best_url, best_date)\<close>, initially \<open>(None, None)\<close>.
\<close>

definition best_step ::
  "(string \<Rightarrow> 'd::linorder option) \<Rightarrow> string option \<times> 'd option \<Rightarrow>
   string option \<times> 's hit list \<Rightarrow> string option \<times> 'd option" where
  "best_step strptime best entry =
     (case group_dmax strptime (snd entry) of
        None \<Rightarrow> best
      | Some dmax \<Rightarrow>
          (case snd best of
             None \<Rightarrow> (fst entry, Some dmax)
           | Some best_date \<Rightarrow> if best_date < dmax then (fst entry, Some dmax) else best))"

definition select_best ::
  "(string \<Rightarrow> 'd::linorder option) \<Rightarrow> (string option \<times> 's hit list) list \<Rightarrow>
   string option \<times> 'd option" where
  "select_best strptime by_url = foldl (best_step strptime) (None, None) by_url"

definition most_recent_hits :: "(string \<Rightarrow> 'd::linorder option) \<Rightarrow> 's hit list \<Rightarrow> 's hit list" where
  "most_recent_hits strptime hits =
     (let by_url = group_by_url hits;
          best_url = fst (select_best strptime by_url)
      in if truthy best_url then by_url_get by_url best_url else hits)"

text \<open>
  \<open>sorted(hits, key=lambda x: x[0], reverse=True)\<close>: CPython reverses the list, sorts
  it with its stable sort and reverses the result. \<open>xs[:m]\<close> drops the last \<open>-m\<close>
  elements when \<open>m\<close> is negative.
\<close>

definition sorted_reverse :: "('s::linorder) hit list \<Rightarrow> 's hit list" where
  "sorted_reverse hits = rev (sort_key fst (rev hits))"

definition top_chunks :: "('s::linorder) hit list \<Rightarrow> int \<Rightarrow> 's hit list" where
  "top_chunks hits max_chunks = py_slice (sorted_reverse hits) 0 max_chunks"

text \<open>The context blocks and the source list.\<close>

definition context_block :: "'s hit \<Rightarrow> string" where
  "context_block h =
     ''['' @ fmt (ticker (hit_meta h)) @ '' | '' @ fmt (doc_type (hit_meta h)) @ '' | '' @
     fmt (filing_date (hit_meta h)) @ ''] '' @ or_empty (item_text (snd h))"

fun join :: "string \<Rightarrow> string list \<Rightarrow> string" where
  "join sep [] = []"
| "join sep [x] = x"
| "join sep (x # y # ys) = x @ sep @ join sep (y # ys)"

definition context_of :: "'s hit list \<Rightarrow> string" where
  "context_of hits =
     join [CHR 10, CHR 10, CHR ''-'', CHR ''-'', CHR ''-'', CHR 10, CHR 10] (map context_block hits)"

definition sources_of :: "'s hit list \<Rightarrow> string list" where
  "sources_of hits =
     concat (map (\<lambda>h. if truthy (url (hit_meta h)) then [or_empty (url (hit_meta h))] else []) hits)"

text \<open>\<open>list(dict.fromkeys(us))\<close>: the keys of a dictionary filled in order.\<close>

definition dict_fromkeys :: "'a list \<Rightarrow> 'a list" where
  "dict_fromkeys us = foldl (\<lambda>keys u. if u \<in> set keys then keys else keys @ [u]) [] us"

definition shown_sources :: "'s hit list \<Rightarrow> string list" where
  "shown_sources hits = take 5 (dict_fromkeys (filter (\<lambda>u. u \<noteq> []) (sources_of hits)))"

text \<open>
  The command-line arguments the engine reads, and what \<open>main\<close> does after the index
  search: either it prints the no-match message and returns, or it calls the chat
  completion with the context and prints the sources.
\<close>

record args =
  question :: string
  ticker_arg :: "string option"
  doc_type_arg :: "string option"
  most_recent :: bool
  max_chunks :: int

datatype 's outcome =
    NoMatchingDocuments
  | ChatCompletion (used_hits: "'s hit list") (prompt_context: string) (printed_sources: "string list")

definition main_ask ::
  "(string \<Rightarrow> 'd::linorder option) \<Rightarrow> string option \<Rightarrow> args \<Rightarrow> chunk list \<Rightarrow>
   ('s::linorder) list \<Rightarrow> int list \<Rightarrow> py_error + 's outcome" where
  "main_ask strptime api_key a store scores idxs =
     (if \<not> truthy api_key then Inl (RuntimeError ''OPENAI_API_KEY missing in .env'')
      else
        (case collect_hits store (zip scores idxs) of
           Inl e \<Rightarrow> Inl e
         | Inr hits0 \<Rightarrow>
             (let hits1 = filter_hits (ticker_arg a) (doc_type_arg a) hits0 in
              if hits1 = [] then Inr NoMatchingDocuments
              else
                (let hits2 = (if most_recent a then most_recent_hits strptime hits1 else hits1);
                     hits3 = top_chunks hits2 (max_chunks a)
                 in Inr (ChatCompletion hits3 (context_of hits3) (shown_sources hits3))))))"


subsection \<open>A model of the library's date parser\<close>

text \<open>
  \<open>datetime.strptime(s, "%Y-%m-%d")\<close> on ASCII input, after the regular expression the
  library builds for this format: four digits, a hyphen, a month
  (\<open>1[0-2]|0[1-9]|[1-9]\<close>), a hyphen, a day (\<open>3[01]|[12]\d|0[1-9]|[1-9]| [1-9]\<close>),
  nothing left over, and a date that exists. A datetime is the triple (year, month,
  day), ordered lexicographically. The engine takes the parser as a parameter; this
  instance is the one the examples run on.
\<close>

definition digit :: "char \<Rightarrow> nat option" where
  "digit c = (let n = (of_char c :: nat) in if 48 \<le> n \<and> n \<le> 57 then Some (n - 48) else None)"

definition next_digit :: "string \<Rightarrow> nat option" where
  "next_digit s = (case s of [] \<Rightarrow> None | c # _ \<Rightarrow> digit c)"

definition match_year :: "string \<Rightarrow> (nat \<times> string) option" where
  "match_year s =
     (case map digit (take 4 s) of
        [Some a, Some b, Some c, Some d] \<Rightarrow> Some (1000 * a + 100 * b + 10 * c + d, drop 4 s)
      | _ \<Rightarrow> None)"

definition match_month :: "string \<Rightarrow> (nat \<times> string) option" where
  "match_month s =
     (case next_digit s of
        None \<Rightarrow> None
      | Some x \<Rightarrow>
          (case next_digit (tl s) of
             None \<Rightarrow> if 1 \<le> x then Some (x, tl s) else None
           | Some y \<Rightarrow>
               if x = 1 \<and> y \<le> 2 then Some (10 + y, drop 2 s)
               else if x = 0 then (if 1 \<le> y then Some (y, drop 2 s) else None)
               else Some (x, tl s)))"

definition match_day :: "string \<Rightarrow> (nat \<times> string) option" where
  "match_day s =
     (case s of
        [] \<Rightarrow> None
      | c # s1 \<Rightarrow>
          (case digit c of
             None \<Rightarrow>
               (if c = CHR '' ''
                then (case next_digit s1 of
                        None \<Rightarrow> None
                      | Some y \<Rightarrow> if 1 \<le> y then Some (y, tl s1) else None)
                else None)
           | Some x \<Rightarrow>
               (case next_digit s1 of
                  None \<Rightarrow> if 1 \<le> x then Some (x, s1) else None
                | Some y \<Rightarrow>
                    if x = 3 \<and> y \<le> 1 then Some (30 + y, tl s1)
                    else if x = 1 \<or> x = 2 then Some (10 * x + y, tl s1)
                    else if x = 0 then (if 1 \<le> y then Some (y, tl s1) else None)
                    else Some (x, s1))))"

definition days_in_month :: "nat \<Rightarrow> nat \<Rightarrow> nat" where
  "days_in_month y m =
     (if m = 2 then (if y mod 4 = 0 \<and> (y mod 400 = 0 \<or> y mod 100 \<noteq> 0) then 29 else 28)
      else if m = 4 \<or> m = 6 \<or> m = 9 \<or> m = 11 then 30 else 31)"

definition strptime_ymd :: "string \<Rightarrow> (nat \<times> nat \<times> nat) option" where
  "strptime_ymd s =
     (case match_year s of
        None \<Rightarrow> None
      | Some (y, s1) \<Rightarrow>
          if s1 = [] \<or> hd s1 \<noteq> CHR ''-'' then None
          else
            (case match_month (tl s1) of
               None \<Rightarrow> None
             | Some (m, s2) \<Rightarrow>
                 if s2 = [] \<or> hd s2 \<noteq> CHR ''-'' then None
                 else
                   (case match_day (tl s2) of
                      None \<Rightarrow> None
                    | Some (d, s3) \<Rightarrow>
                        if s3 = [] \<and> 1 \<le> y \<and> d \<le> days_in_month y m then Some (y, m, d)
                        else None)))"


section \<open>embeddings/chunk\_docs.py\<close>

text \<open>
  The \<open>while\<close> loop of \<open>chunk_text\<close>, with its state \<open>(start, chunks)\<close>. The loop
  need not end for every window size and overlap, so it is a partial function: a run
  that never returns is \<open>None\<close>.
\<close>

partial_function (option) chunk_loop ::
  "string \<Rightarrow> int \<Rightarrow> int \<Rightarrow> int \<Rightarrow> string list \<Rightarrow> string list option" where
  "chunk_loop txt chunk_size overlap start chunks =
     (let n = int (length txt) in
      if start < n then
        (let stop = min (start + chunk_size) n;
             chunk = strip (py_slice txt start stop);
             chunks' = (if chunk \<noteq> [] then chunks @ [chunk] else chunks)
         in if stop = n then Some chunks'
            else chunk_loop txt chunk_size overlap (max 0 (stop - overlap)) chunks')
      else Some chunks)"

declare chunk_loop.simps [code]

definition chunk_text :: "string \<Rightarrow> int \<Rightarrow> int \<Rightarrow> string list option" where
  "chunk_text txt chunk_size overlap = chunk_loop txt chunk_size overlap 0 []"


section \<open>embeddings/update\_faiss.py\<close>

text \<open>
  \<open>embed_texts\<close>: the texts go to the embedding service in batches of 64, one request
  per start offset of \<open>range(0, len(texts), 64)\<close>; the answers are concatenated and each
  vector is normalised. The service (\<open>embed_batch\<close>, a batch of texts to the list of vectors
  it answers) and the normalisation are parameters.
\<close>

definition embed_texts :: "(string list \<Rightarrow> 'v list) \<Rightarrow> ('v \<Rightarrow> 'v) \<Rightarrow> string list \<Rightarrow> 'v list" where
  "embed_texts embed_batch normalize_L2 texts =
     map normalize_L2
       (concat (map (\<lambda>i. embed_batch (take 64 (drop i texts)))
                    (map (\<lambda>j. j * 64) [0..<(length texts + 63) div 64])))"

text \<open>
  \<open>main\<close>: the vector index is the list of its vectors (\<open>index.add\<close> appends), the
  metadata store the list of its chunks. A file that does not exist is \<open>None\<close>. The
  result is the pair that is on disk afterwards.
\<close>

definition main_update ::
  "(string list \<Rightarrow> 'v list) \<Rightarrow> ('v \<Rightarrow> 'v) \<Rightarrow> string option \<Rightarrow> chunk list \<Rightarrow>
   'v list option \<Rightarrow> chunk list option \<Rightarrow> py_error + ('v list \<times> chunk list)" where
  "main_update embed_batch normalize_L2 api_key chunks index_file meta_file =
     (if \<not> truthy api_key then Inl (RuntimeError ''OPENAI_API_KEY missing in .env'')
      else
        (case (index_file, meta_file) of
           (Some index, Some meta_store) \<Rightarrow>
             (let existing_ids = set (map chunk_id meta_store);
                  new_items = filter (\<lambda>c. chunk_id c \<notin> existing_ids) chunks
              in if new_items = [] then Inr (index, meta_store)
                 else if None \<in> set (map item_text new_items) then Inl (KeyError ''text'')
                 else
                   (let texts = map (\<lambda>x. or_empty (item_text x)) new_items;
                        vecs = embed_texts embed_batch normalize_L2 texts
                    in Inr (index @ vecs, meta_store @ new_items)))
         | _ \<Rightarrow> Inl (RuntimeError ''Index/meta not found. Run embeddings/build_faiss.py first.'')))"


section \<open>preprocess/clean\_docs.py\<close>

text \<open>
  \<open>html_to_text\<close>: the text BeautifulSoup extracts (the parameter \<open>get_text\<close>: parsing,
  dropping script, style and noscript, \<open>get_text\<close> with a newline separator), then the
  three substitutions and \<open>strip\<close>. \<open>squeeze_newlines n\<close> has already seen \<open>n\<close> newlines
  in a row and keeps at most two of a run; \<open>squeeze_blanks\<close> turns a run of two or more
  spaces and tabs into one space.
\<close>

definition cr_to_lf :: "string \<Rightarrow> string" where
  "cr_to_lf s = map (\<lambda>c. if c = CHR 13 then CHR 10 else c) s"

fun squeeze_newlines :: "nat \<Rightarrow> string \<Rightarrow> string" where
  "squeeze_newlines n [] = []"
| "squeeze_newlines n (c # cs) =
     (if c = CHR 10
      then (if 2 \<le> n then squeeze_newlines n cs else c # squeeze_newlines (Suc n) cs)
      else c # squeeze_newlines 0 cs)"

definition is_blank :: "char \<Rightarrow> bool" where
  "is_blank c = (c = CHR '' '' \<or> c = CHR 9)"

fun squeeze_blanks :: "string \<Rightarrow> string" where
  "squeeze_blanks (c # d # cs) =
     (if is_blank c \<and> is_blank d then squeeze_blanks (CHR '' '' # cs)
      else c # squeeze_blanks (d # cs))"
| "squeeze_blanks cs = cs"

definition html_to_text :: "(string \<Rightarrow> string) \<Rightarrow> string \<Rightarrow> string" where
  "html_to_text get_text html =
     strip (squeeze_blanks (squeeze_newlines 0 (cr_to_lf (get_text html))))"

record raw_item =
  raw_id :: "string option"
  raw_html :: "string option"
  raw_ticker :: "string option"
  raw_source :: "string option"
  raw_doc_type :: "string option"
  raw_cik :: "string option"
  raw_accession :: "string option"
  raw_filing_date :: "string option"
  raw_report_date :: "string option"
  raw_url :: "string option"
  raw_fetched_at :: "string option"

record clean_doc =
  clean_id :: "string option"
  clean_text :: string
  clean_ticker :: "string option"
  clean_source :: "string option"
  clean_doc_type :: "string option"
  clean_cik :: "string option"
  clean_accession :: "string option"
  clean_filing_date :: "string option"
  clean_report_date :: "string option"
  clean_url :: "string option"
  clean_fetched_at :: "string option"

definition clean_one :: "(string \<Rightarrow> string) \<Rightarrow> raw_item \<Rightarrow> clean_doc option" where
  "clean_one get_text item =
     (if \<not> truthy (raw_html item) then None
      else
        (let txt = html_to_text get_text (or_empty (raw_html item))
         in if length txt < 200 then None
            else Some \<lparr> clean_id = raw_id item, clean_text = txt,
                        clean_ticker = raw_ticker item, clean_source = raw_source item,
                        clean_doc_type = raw_doc_type item, clean_cik = raw_cik item,
                        clean_accession = raw_accession item,
                        clean_filing_date = raw_filing_date item,
                        clean_report_date = raw_report_date item, clean_url = raw_url item,
                        clean_fetched_at = raw_fetched_at item \<rparr>))"

text \<open>The loop of \<open>main\<close>: the documents written out are those \<open>clean_one\<close> returns.\<close>

definition main_clean :: "(string \<Rightarrow> string) \<Rightarrow> raw_item list \<Rightarrow> clean_doc list" where
  "main_clean get_text items = List.map_filter (clean_one get_text) items"


section \<open>The specification's notions\<close>

text \<open>
  Equality of strings ignoring case: the same length, and at every position the same
  character or a letter and its capital.
\<close>

definition same_letter :: "char \<Rightarrow> char \<Rightarrow> bool" where
  "same_letter c d = (c = d \<or> upper_char c = d \<or> c = upper_char d)"

definition equal_ignoring_case :: "string \<Rightarrow> string \<Rightarrow> bool" where
  "equal_ignoring_case a b = list_all2 same_letter a b"

text \<open>
  The filter policy in the specification's words: a supplied value keeps a field that
  is present and equals the value ignoring case.
\<close>

definition claimed_match :: "string option \<Rightarrow> string option \<Rightarrow> bool" where
  "claimed_match arg field =
     (case arg of
        None \<Rightarrow> True
      | Some v \<Rightarrow> (case field of None \<Rightarrow> False | Some f \<Rightarrow> equal_ignoring_case f v))"

text \<open>
  The filter policy of the code, for the filter values it is designed for. An absent
  or empty value keeps everything. Any other value is stripped, and keeps a field that
  is present and equals the stripped value ignoring case. A value is \<open>usable\<close> when it
  is absent, empty, or not empty after stripping; the policy says nothing of a value
  that is white space only.
\<close>

definition usable_filter :: "string option \<Rightarrow> bool" where
  "usable_filter arg = (case arg of None \<Rightarrow> True | Some v \<Rightarrow> v = [] \<or> strip v \<noteq> [])"

definition field_match :: "string option \<Rightarrow> string option \<Rightarrow> bool" where
  "field_match arg field =
     (case arg of
        None \<Rightarrow> True
      | Some v \<Rightarrow>
          if v = [] then True
          else (case field of None \<Rightarrow> False | Some f \<Rightarrow> equal_ignoring_case f (strip v)))"

text \<open>The ticker and document type of every hit are ASCII strings, where present.\<close>

definition ascii_fields :: "'s hit list \<Rightarrow> bool" where
  "ascii_fields hits =
     list_all (\<lambda>h. is_ascii (or_empty (ticker (hit_meta h)))
                 \<and> is_ascii (or_empty (doc_type (hit_meta h)))) hits"


text \<open>
  The source list in the specification's words: the non-empty source URLs of the
  chunks in order of appearance, and the walk that skips a URL it has already seen.
\<close>

definition nonempty_urls :: "'s hit list \<Rightarrow> string list" where
  "nonempty_urls hits =
     List.map_filter
       (\<lambda>h. case url (hit_meta h) of None \<Rightarrow> None | Some u \<Rightarrow> if u = [] then None else Some u) hits"

fun dedup_seen :: "'a list \<Rightarrow> 'a list \<Rightarrow> 'a list" where
  "dedup_seen seen [] = []"
| "dedup_seen seen (u # us) =
     (if u \<in> set seen then dedup_seen seen us else u # dedup_seen (u # seen) us)"

text \<open>
  The new chunks of an index update in the specification's words: the input chunks
  whose \<open>chunk_id\<close> is not the \<open>chunk_id\<close> of a chunk of the store, in input order.
\<close>

definition new_items_of :: "chunk list \<Rightarrow> chunk list \<Rightarrow> chunk list" where
  "new_items_of store chunks = filter (\<lambda>c. chunk_id c \<notin> chunk_id ` set store) chunks"


text \<open>
  Fixed-window chunking in the specification's words. Window \<open>k\<close> starts at offset
  \<open>k * (w - ov)\<close> and holds the next \<open>w\<close> characters, or what remains of the text. For a
  text of \<open>n\<close> characters and step \<open>s\<close> there are \<open>window_count n w s\<close> windows: none for
  the empty text, one when the text fits the first window, and otherwise as many as it
  takes for a window to reach the end of the text.
\<close>

definition window_count :: "nat \<Rightarrow> nat \<Rightarrow> nat \<Rightarrow> nat" where
  "window_count n w s = (if n = 0 then 0 else if n \<le> w then 1 else (n - w + s - 1) div s + 1)"

definition spec_windows :: "string \<Rightarrow> nat \<Rightarrow> nat \<Rightarrow> string list" where
  "spec_windows txt w ov =
     map (\<lambda>k. take w (drop (k * (w - ov)) txt)) [0..<window_count (length txt) w (w - ov)]"

text \<open>The windows from a start offset on, one step at a time.\<close>

function windows_from :: "string \<Rightarrow> nat \<Rightarrow> nat \<Rightarrow> nat \<Rightarrow> string list" where
  "windows_from txt w s start =
     (if length txt \<le> start \<or> s = 0 then []
      else if length txt \<le> start + w then [drop start txt]
      else take w (drop start txt) # windows_from txt w s (start + s))"
  by pat_completeness auto
termination
  by (relation "measure (\<lambda>(txt, w, s, start). length txt - start)") auto

declare windows_from.simps [simp del]

text \<open>What is emitted for a list of windows: a window of white space only is dropped,
  every other window is trimmed.\<close>

definition emitted :: "string list \<Rightarrow> string list" where
  "emitted wins = map strip (filter (\<lambda>win. \<not> list_all is_space win) wins)"


text \<open>
  Most-recent selection in the specification's words: the group of a source URL is
  the list of the hits with that URL, in hit order, and the dates of a list of hits are
  their parseable filing dates.
\<close>

definition url_group :: "'s hit list \<Rightarrow> string option \<Rightarrow> 's hit list" where
  "url_group hits k = filter (\<lambda>x. url (hit_meta x) = k) hits"

definition dates_of :: "(string \<Rightarrow> 'd option) \<Rightarrow> 's hit list \<Rightarrow> 'd list" where
  "dates_of strptime items =
     List.map_filter (\<lambda>x. parse_date strptime (filing_date (hit_meta x))) items"


section \<open>Example data\<close>

text \<open>A chunk with the given id, ticker, document type, filing date and URL.\<close>

definition mk_chunk ::
  "string \<Rightarrow> string option \<Rightarrow> string option \<Rightarrow> string option \<Rightarrow> string option \<Rightarrow> chunk" where
  "mk_chunk cid tk dt fd u =
     \<lparr> chunk_id = Some cid, item_text = Some ''text'',
       meta = \<lparr> doc_id = Some cid, ticker = tk, doc_type = dt, filing_date = fd, url = u,
                source = Some ''sec'' \<rparr> \<rparr>"

text \<open>A raw document with the given HTML.\<close>

definition raw_example :: "string option \<Rightarrow> raw_item" where
  "raw_example html =
     \<lparr> raw_id = Some ''doc1'', raw_html = html, raw_ticker = Some ''AAPL'',
       raw_source = Some ''sec'', raw_doc_type = Some ''8-K'', raw_cik = None,
       raw_accession = None, raw_filing_date = Some ''2024-01-01'', raw_report_date = None,
       raw_url = Some ''u1'', raw_fetched_at = None \<rparr>"

text \<open>The arguments of a query with the given filters, recency flag and cap.\<close>

definition mk_args :: "string option \<Rightarrow> string option \<Rightarrow> bool \<Rightarrow> int \<Rightarrow> args" where
  "mk_args tk dt recent cap =
     \<lparr> question = ''q'', ticker_arg = tk, doc_type_arg = dt, most_recent = recent,
       max_chunks = cap \<rparr>"

text \<open>
  Five hits of three filings: the filings \<open>u1\<close>, \<open>u2\<close> and \<open>u3\<close> all have the latest
  date 2024-02-01, and \<open>u1\<close> is met first.
\<close>

definition tie_hits :: "int hit list" where
  "tie_hits =
     [(9, mk_chunk ''A'' None None (Some ''2024-01-01'') (Some ''u1'')),
      (5, mk_chunk ''B'' None None (Some ''2024-02-01'') (Some ''u2'')),
      (8, mk_chunk ''C'' None None (Some ''2024-02-01'') (Some ''u3'')),
      (7, mk_chunk ''D'' None None (Some ''bad'') (Some ''u2'')),
      (6, mk_chunk ''E'' None None (Some ''2024-02-01'') (Some ''u1''))]"


section \<open>Strings: comparing ignoring case\<close>

lemma upper_char_idem: "upper_char (upper_char c) = upper_char c"
proof -
  have "\<And>n::nat. 97 \<le> n \<Longrightarrow> n \<le> 122 \<Longrightarrow> (n - 32) mod 256 = n - 32" by simp
  then show ?thesis
    by (auto simp: upper_char_def Let_def of_char_of)
qed

lemma upper_char_inj_lower:
  assumes "97 \<le> (of_char c :: nat)" "(of_char c :: nat) \<le> 122"
    and "97 \<le> (of_char d :: nat)" "(of_char d :: nat) \<le> 122"
    and "upper_char c = upper_char d"
  shows "c = d"
proof -
  from assms have "char_of (of_char c - 32 :: nat) = (char_of (of_char d - 32 :: nat) :: char)"
    by (simp add: upper_char_def Let_def)
  then have "(of_char (char_of (of_char c - 32 :: nat) :: char) :: nat)
      = of_char (char_of (of_char d - 32 :: nat) :: char)"
    by simp
  with assms have "(of_char c :: nat) - 32 = of_char d - 32"
    by (simp add: of_char_of)
  with assms have "(of_char c :: nat) = of_char d" by linarith
  then show ?thesis by simp
qed

lemma upper_char_eq_iff: "upper_char c = upper_char d \<longleftrightarrow> same_letter c d"
proof
  assume eq: "upper_char c = upper_char d"
  show "same_letter c d"
  proof (cases "97 \<le> (of_char c :: nat) \<and> (of_char c :: nat) \<le> 122")
    case c: True
    show ?thesis
    proof (cases "97 \<le> (of_char d :: nat) \<and> (of_char d :: nat) \<le> 122")
      case True
      with c eq have "c = d" by (blast intro: upper_char_inj_lower)
      then show ?thesis by (simp add: same_letter_def)
    next
      case False
      then have "upper_char d = d" by (auto simp: upper_char_def Let_def)
      with eq show ?thesis by (simp add: same_letter_def)
    qed
  next
    case False
    then have "upper_char c = c" by (auto simp: upper_char_def Let_def)
    with eq show ?thesis by (simp add: same_letter_def)
  qed
next
  assume "same_letter c d"
  then show "upper_char c = upper_char d"
    by (auto simp: same_letter_def upper_char_idem)
qed

lemma upper_eq_iff: "upper a = upper b \<longleftrightarrow> equal_ignoring_case a b"
  unfolding upper_def equal_ignoring_case_def
proof (induction a arbitrary: b)
  case Nil
  then show ?case by auto
next
  case (Cons x xs)
  then show ?case by (cases b) (auto simp: upper_char_eq_iff)
qed


section \<open>The metadata filters\<close>

lemma upper_field_eq_iff:
  assumes "strip v \<noteq> []"
  shows "upper (or_empty field) = upper (strip v)
         \<longleftrightarrow> (case field of None \<Rightarrow> False | Some f \<Rightarrow> equal_ignoring_case f (strip v))"
proof (cases field)
  case None
  with assms show ?thesis by (simp add: or_empty_def upper_def)
next
  case (Some f)
  then show ?thesis by (simp add: or_empty_def upper_eq_iff)
qed

lemma filter_ticker_eq:
  assumes "usable_filter arg"
  shows "filter_ticker arg hits = filter (\<lambda>h. field_match arg (ticker (hit_meta h))) hits"
proof (cases arg)
  case None
  then show ?thesis by (simp add: filter_ticker_def field_match_def truthy_def)
next
  case (Some v)
  show ?thesis
  proof (cases "v = []")
    case True
    with Some show ?thesis by (simp add: filter_ticker_def field_match_def truthy_def)
  next
    case False
    with Some assms have ne: "strip v \<noteq> []" by (simp add: usable_filter_def)
    from Some False show ?thesis
      by (simp add: filter_ticker_def field_match_def truthy_def or_empty_def [of "Some v"]
            upper_field_eq_iff [OF ne])
  qed
qed

lemma filter_doc_type_eq:
  assumes "usable_filter arg"
  shows "filter_doc_type arg hits = filter (\<lambda>h. field_match arg (doc_type (hit_meta h))) hits"
proof (cases arg)
  case None
  then show ?thesis by (simp add: filter_doc_type_def field_match_def truthy_def)
next
  case (Some v)
  show ?thesis
  proof (cases "v = []")
    case True
    with Some show ?thesis by (simp add: filter_doc_type_def field_match_def truthy_def)
  next
    case False
    with Some assms have ne: "strip v \<noteq> []" by (simp add: usable_filter_def)
    from Some False show ?thesis
      by (simp add: filter_doc_type_def field_match_def truthy_def or_empty_def [of "Some v"]
            upper_field_eq_iff [OF ne])
  qed
qed

lemma field_match_present:
  assumes "truthy arg" and "field_match arg field"
  shows "field \<noteq> None"
  using assms by (cases arg; cases field) (auto simp: truthy_def field_match_def)

text \<open>
  C2, as the code has it by design, for ASCII filter values and fields. A filter value
  that is absent or empty switches its filter off. A value that is not empty after
  stripping surrounding white space is compared in its stripped form: the hits that
  survive \<open>filter_hits\<close> are exactly those whose ticker (respectively document type) is
  present and equals the stripped value ignoring case, as whole strings; a hit whose
  field is missing never survives such a filter; and with both filters a hit survives
  if and only if it passes both.
\<close>

theorem filter_hits_exact:
  assumes "usable_filter ta" and "usable_filter da"
    and "is_ascii (or_empty ta)" and "is_ascii (or_empty da)" and "ascii_fields hits"
  shows "filter_hits ta da hits =
     filter (\<lambda>h. field_match ta (ticker (hit_meta h)) \<and> field_match da (doc_type (hit_meta h))) hits
   \<and> (truthy ta \<longrightarrow> (\<forall>h \<in> set (filter_hits ta da hits). ticker (hit_meta h) \<noteq> None))
   \<and> (truthy da \<longrightarrow> (\<forall>h \<in> set (filter_hits ta da hits). doc_type (hit_meta h) \<noteq> None))"
proof -
  have eq: "filter_hits ta da hits =
     filter (\<lambda>h. field_match ta (ticker (hit_meta h)) \<and> field_match da (doc_type (hit_meta h))) hits"
    by (simp add: filter_hits_def filter_ticker_eq [OF assms(1)] filter_doc_type_eq [OF assms(2)]
          conj_commute)
  show ?thesis
    unfolding eq using field_match_present by auto
qed

theorem filter_hits_exact_witness:
  "usable_filter (Some '' aapl '') \<and> usable_filter (Some ''8-k'')
   \<and> is_ascii (or_empty (Some '' aapl '')) \<and> is_ascii (or_empty (Some ''8-k''))
   \<and> ascii_fields
       [(3::int, mk_chunk ''a'' (Some ''AAPL'') (Some ''8-K'') None None),
        (2, mk_chunk ''b'' (Some ''AAPL'') (Some ''10-K'') None None),
        (1, mk_chunk ''c'' None (Some ''8-K'') None None),
        (0, mk_chunk ''d'' (Some ''AAPLX'') (Some ''8-K'') None None)]
   \<and> truthy (Some '' aapl '')
   \<and> filter_hits (Some '' aapl '') (Some ''8-k'')
       [(3::int, mk_chunk ''a'' (Some ''AAPL'') (Some ''8-K'') None None),
        (2, mk_chunk ''b'' (Some ''AAPL'') (Some ''10-K'') None None),
        (1, mk_chunk ''c'' None (Some ''8-K'') None None),
        (0, mk_chunk ''d'' (Some ''AAPLX'') (Some ''8-K'') None None)]
     = [(3, mk_chunk ''a'' (Some ''AAPL'') (Some ''8-K'') None None)]
   \<and> filter (\<lambda>h. field_match (Some '' aapl '') (ticker (hit_meta h))
                \<and> field_match (Some ''8-k'') (doc_type (hit_meta h)))
       [(3::int, mk_chunk ''a'' (Some ''AAPL'') (Some ''8-K'') None None),
        (2, mk_chunk ''b'' (Some ''AAPL'') (Some ''10-K'') None None),
        (1, mk_chunk ''c'' None (Some ''8-K'') None None),
        (0, mk_chunk ''d'' (Some ''AAPLX'') (Some ''8-K'') None None)]
     = [(3, mk_chunk ''a'' (Some ''AAPL'') (Some ''8-K'') None None)]
   \<and> ticker (hit_meta (3::int, mk_chunk ''a'' (Some ''AAPL'') (Some ''8-K'') None None)) \<noteq> None"
proof -
  let ?hits = "[(3::int, mk_chunk ''a'' (Some ''AAPL'') (Some ''8-K'') None None),
      (2, mk_chunk ''b'' (Some ''AAPL'') (Some ''10-K'') None None),
      (1, mk_chunk ''c'' None (Some ''8-K'') None None),
      (0, mk_chunk ''d'' (Some ''AAPLX'') (Some ''8-K'') None None)]"
  have h1: "usable_filter (Some '' aapl '')" by code_simp
  have h2: "usable_filter (Some ''8-k'')" by code_simp
  have h3: "is_ascii (or_empty (Some '' aapl ''))" by code_simp
  have h4: "is_ascii (or_empty (Some ''8-k''))" by code_simp
  have h5: "ascii_fields ?hits" by code_simp
  have t: "truthy (Some '' aapl '')" by code_simp
  have run: "filter_hits (Some '' aapl '') (Some ''8-k'') ?hits
      = [(3, mk_chunk ''a'' (Some ''AAPL'') (Some ''8-K'') None None)]"
    by code_simp
  note inst = filter_hits_exact [OF h1 h2 h3 h4 h5]
  from inst run have pol: "filter (\<lambda>h. field_match (Some '' aapl '') (ticker (hit_meta h))
                \<and> field_match (Some ''8-k'') (doc_type (hit_meta h))) ?hits
      = [(3, mk_chunk ''a'' (Some ''AAPL'') (Some ''8-K'') None None)]"
    by simp
  from inst t
  have "\<forall>h \<in> set (filter_hits (Some '' aapl '') (Some ''8-k'') ?hits). ticker (hit_meta h) \<noteq> None"
    by blast
  with run have "ticker (hit_meta (3::int, mk_chunk ''a'' (Some ''AAPL'') (Some ''8-K'') None None)) \<noteq> None"
    by simp
  with h1 h2 h3 h4 h5 t run pol show ?thesis by blast
qed

text \<open>
  C2 as the specification states it fails. The ticker filter \<open>" AAPL"\<close> keeps a hit
  whose ticker \<open>"AAPL"\<close> does not equal the requested value ignoring case: the
  requested value is stripped before it is compared.
\<close>

theorem filter_hits_claim_counterexample:
  "filter_hits (Some '' AAPL'') None [(1::int, mk_chunk ''a'' (Some ''AAPL'') None None None)]
      = [(1, mk_chunk ''a'' (Some ''AAPL'') None None None)]
   \<and> \<not> claimed_match (Some '' AAPL'') (ticker (hit_meta (1::int, mk_chunk ''a'' (Some ''AAPL'') None None None)))"
  by code_simp


section \<open>Ranking and truncation\<close>

lemma py_slice_prefix: "0 \<le> m \<Longrightarrow> py_slice xs 0 m = take (nat m) xs"
  by (auto simp: py_slice_def Let_def min_def)

lemma sorted_reverse_desc: "sorted_wrt (\<lambda>a b. fst b \<le> fst a) (sorted_reverse hits)"
proof -
  have "sorted (map fst (sort_key fst (rev hits)))" by (rule sorted_sort_key)
  then have "sorted_wrt (\<lambda>a b. fst a \<le> fst b) (sort_key fst (rev hits))"
    by (simp add: sorted_map)
  then show ?thesis
    by (simp add: sorted_reverse_def sorted_wrt_rev)
qed

lemma sorted_reverse_stable:
  "filter (\<lambda>h. fst h = s) (sorted_reverse hits) = filter (\<lambda>h. fst h = s) hits"
proof -
  have "filter (\<lambda>h. fst h = s) (sort_key fst (rev hits)) = filter (\<lambda>h. fst h = s) (rev hits)"
    by (rule sort_key_stable)
  then show ?thesis
    by (simp add: sorted_reverse_def rev_filter [symmetric])
qed

lemma mset_sorted_reverse: "mset (sorted_reverse hits) = mset hits"
  by (simp add: sorted_reverse_def)

text \<open>
  C3. For \<open>max_chunks \<ge> 0\<close> the returned sequence has length
  \<open>min max_chunks (length hits)\<close>, is sorted by score in descending order, and among
  the hits of any one score it is a prefix of those hits in their retrieval order
  (the sort is stable). It holds the top hits: together with some rest it is a
  permutation of the candidates, and no hit of the rest has a larger score.
\<close>

theorem top_chunks_sorted_stable:
  assumes "0 \<le> m"
  shows "length (top_chunks hits m) = min (nat m) (length hits)
    \<and> sorted_wrt (\<lambda>a b. fst b \<le> fst a) (top_chunks hits m)
    \<and> (\<forall>s. prefix (filter (\<lambda>h. fst h = s) (top_chunks hits m)) (filter (\<lambda>h. fst h = s) hits))
    \<and> (\<exists>rest. mset (top_chunks hits m @ rest) = mset hits
          \<and> (\<forall>a \<in> set (top_chunks hits m). \<forall>b \<in> set rest. fst b \<le> fst a))"
proof -
  let ?ys = "sorted_reverse hits"
  have top: "top_chunks hits m = take (nat m) ?ys"
    using assms by (simp add: top_chunks_def py_slice_prefix)
  have len: "length ?ys = length hits"
    by (simp add: sorted_reverse_def)
  have desc: "sorted_wrt (\<lambda>a b. fst b \<le> fst a) (take (nat m) ?ys @ drop (nat m) ?ys)"
    using sorted_reverse_desc [of hits] by simp
  have c1: "length (top_chunks hits m) = min (nat m) (length hits)"
    by (simp add: top len min.commute)
  have c2: "sorted_wrt (\<lambda>a b. fst b \<le> fst a) (top_chunks hits m)"
    using desc unfolding top sorted_wrt_append by blast
  have c3: "prefix (filter (\<lambda>h. fst h = s) (top_chunks hits m)) (filter (\<lambda>h. fst h = s) hits)" for s
  proof -
    have "prefix (filter (\<lambda>h. fst h = s) (take (nat m) ?ys)) (filter (\<lambda>h. fst h = s) ?ys)"
      by (intro filter_mono_prefix take_is_prefix)
    then show ?thesis by (simp add: top sorted_reverse_stable)
  qed
  have c4: "mset (top_chunks hits m @ drop (nat m) ?ys) = mset hits"
    unfolding top by (simp add: mset_sorted_reverse)
  have c5: "\<forall>a \<in> set (top_chunks hits m). \<forall>b \<in> set (drop (nat m) ?ys). fst b \<le> fst a"
    using desc unfolding top sorted_wrt_append by blast
  from c1 c2 c3 c4 c5 show ?thesis by blast
qed

theorem top_chunks_sorted_stable_witness:
  "(0::int) \<le> 3
   \<and> top_chunks [(1::int, mk_chunk ''a'' None None None None), (3, mk_chunk ''b'' None None None None),
        (1, mk_chunk ''c'' None None None None), (3, mk_chunk ''d'' None None None None)] 3
     = [(3, mk_chunk ''b'' None None None None), (3, mk_chunk ''d'' None None None None),
        (1, mk_chunk ''a'' None None None None)]
   \<and> length (top_chunks [(1::int, mk_chunk ''a'' None None None None), (3, mk_chunk ''b'' None None None None),
        (1, mk_chunk ''c'' None None None None), (3, mk_chunk ''d'' None None None None)] 3)
     = min (nat 3) (length [(1::int, mk_chunk ''a'' None None None None), (3, mk_chunk ''b'' None None None None),
        (1, mk_chunk ''c'' None None None None), (3, mk_chunk ''d'' None None None None)])"
proof -
  let ?hits = "[(1::int, mk_chunk ''a'' None None None None), (3, mk_chunk ''b'' None None None None),
        (1, mk_chunk ''c'' None None None None), (3, mk_chunk ''d'' None None None None)]"
  have pre: "(0::int) \<le> 3" by simp
  have run: "top_chunks ?hits 3
     = [(3, mk_chunk ''b'' None None None None), (3, mk_chunk ''d'' None None None None),
        (1, mk_chunk ''a'' None None None None)]"
    by code_simp
  from top_chunks_sorted_stable [OF pre, of ?hits]
  have "length (top_chunks ?hits 3) = min (nat 3) (length ?hits)" by blast
  with pre run show ?thesis by blast
qed


section \<open>The no-match outcome\<close>

lemma collect_hits_negative:
  "\<forall>i \<in> set idxs. i < 0 \<Longrightarrow> collect_hits store (zip scores idxs) = Inr []"
proof (induction idxs arbitrary: scores)
  case Nil
  then show ?case by simp
next
  case (Cons i idxs)
  then show ?case by (cases scores) auto
qed

text \<open>
  C4. With the API key present: when the hits were collected and filtering leaves none
  of them, \<open>main\<close> ends with the no-match outcome and raises nothing; so it does when
  the index returns nothing or only negative positions. Whenever the chat completion
  is called, the hits were collected without error and some survived filtering.
\<close>

theorem no_match_outcome:
  "(truthy api_key \<and> collect_hits store (zip scores idxs) = Inr hits
      \<and> filter_hits (ticker_arg a) (doc_type_arg a) hits = []
     \<longrightarrow> main_ask strptime api_key a store scores idxs = Inr NoMatchingDocuments)
   \<and> (truthy api_key \<and> (\<forall>i \<in> set idxs. i < 0)
     \<longrightarrow> main_ask strptime api_key a store scores idxs = Inr NoMatchingDocuments)
   \<and> (\<forall>hs ctx srcs. main_ask strptime api_key a store scores idxs = Inr (ChatCompletion hs ctx srcs)
     \<longrightarrow> (\<exists>hits. collect_hits store (zip scores idxs) = Inr hits
            \<and> filter_hits (ticker_arg a) (doc_type_arg a) hits \<noteq> []))"
proof -
  have filter_nil: "filter_hits ta da ([] :: 'a hit list) = []" for ta da
    by (simp add: filter_hits_def filter_ticker_def filter_doc_type_def)
  have c1: "main_ask strptime api_key a store scores idxs = Inr NoMatchingDocuments"
    if "truthy api_key" "collect_hits store (zip scores idxs) = Inr hits"
       "filter_hits (ticker_arg a) (doc_type_arg a) hits = []"
    using that by (simp add: main_ask_def)
  have c2: "main_ask strptime api_key a store scores idxs = Inr NoMatchingDocuments"
    if "truthy api_key" "\<forall>i \<in> set idxs. i < 0"
    using that collect_hits_negative [of idxs store scores] filter_nil
    by (simp add: main_ask_def)
  have c3: "\<exists>hits. collect_hits store (zip scores idxs) = Inr hits
            \<and> filter_hits (ticker_arg a) (doc_type_arg a) hits \<noteq> []"
    if "main_ask strptime api_key a store scores idxs = Inr (ChatCompletion hs ctx srcs)"
    for hs ctx srcs
  proof (cases "collect_hits store (zip scores idxs)")
    case (Inl e)
    with that show ?thesis by (simp add: main_ask_def split: if_splits)
  next
    case (Inr hits)
    with that have "filter_hits (ticker_arg a) (doc_type_arg a) hits \<noteq> []"
      by (auto simp: main_ask_def Let_def split: if_splits)
    with Inr show ?thesis by simp
  qed
  from c1 c2 c3 show ?thesis by blast
qed

theorem no_match_outcome_witness:
  "truthy (Some ''key'')
   \<and> collect_hits [mk_chunk ''a'' (Some ''AAPL'') None None None] (zip [9::int, 1] [0, -1])
       = Inr [(9, mk_chunk ''a'' (Some ''AAPL'') None None None)]
   \<and> filter_hits (ticker_arg (mk_args (Some ''MSFT'') None True 8))
         (doc_type_arg (mk_args (Some ''MSFT'') None True 8))
         [(9::int, mk_chunk ''a'' (Some ''AAPL'') None None None)] = []
   \<and> main_ask strptime_ymd (Some ''key'') (mk_args (Some ''MSFT'') None True 8)
         [mk_chunk ''a'' (Some ''AAPL'') None None None] [9::int, 1] [0, -1]
       = Inr NoMatchingDocuments"
proof -
  have h1: "truthy (Some ''key'')" by code_simp
  have h2: "collect_hits [mk_chunk ''a'' (Some ''AAPL'') None None None] (zip [9::int, 1] [0, -1])
       = Inr [(9, mk_chunk ''a'' (Some ''AAPL'') None None None)]"
    by simp
  have h3: "filter_hits (ticker_arg (mk_args (Some ''MSFT'') None True 8))
         (doc_type_arg (mk_args (Some ''MSFT'') None True 8))
         [(9::int, mk_chunk ''a'' (Some ''AAPL'') None None None)] = []"
    by code_simp
  from no_match_outcome [of "Some ''key''" "[mk_chunk ''a'' (Some ''AAPL'') None None None]"
      "[9::int, 1]" "[0, -1]" "[(9, mk_chunk ''a'' (Some ''AAPL'') None None None)]"
      "mk_args (Some ''MSFT'') None True 8" strptime_ymd] h1 h2 h3
  have "main_ask strptime_ymd (Some ''key'') (mk_args (Some ''MSFT'') None True 8)
         [mk_chunk ''a'' (Some ''AAPL'') None None None] [9::int, 1] [0, -1]
       = Inr NoMatchingDocuments"
    by blast
  with h1 h2 h3 show ?thesis by blast
qed


section \<open>The source list\<close>

lemma dedup_seen_cong: "set s = set s' \<Longrightarrow> dedup_seen s us = dedup_seen s' us"
proof (induction us arbitrary: s s')
  case Nil
  then show ?case by simp
next
  case (Cons u us)
  have "dedup_seen (u # s) us = dedup_seen (u # s') us"
    by (rule Cons.IH) (simp add: Cons.prems)
  moreover have "dedup_seen s us = dedup_seen s' us"
    by (rule Cons.IH) (rule Cons.prems)
  ultimately show ?case using Cons.prems by simp
qed

lemma fromkeys_foldl:
  "foldl (\<lambda>keys u. if u \<in> set keys then keys else keys @ [u]) acc us = acc @ dedup_seen acc us"
proof (induction us arbitrary: acc)
  case Nil
  then show ?case by simp
next
  case (Cons u us)
  have "dedup_seen (acc @ [u]) us = dedup_seen (u # acc) us"
    by (rule dedup_seen_cong) auto
  with Cons.IH show ?case by simp
qed

lemma dict_fromkeys_dedup: "dict_fromkeys us = dedup_seen [] us"
  by (simp add: dict_fromkeys_def fromkeys_foldl)

lemma set_dedup_seen: "set (dedup_seen seen us) = set us - set seen"
  by (induction us arbitrary: seen) auto

lemma distinct_dedup_seen: "distinct (dedup_seen seen us)"
  by (induction us arbitrary: seen) (auto simp: set_dedup_seen)

lemma sources_of_urls: "sources_of hits = nonempty_urls hits"
  by (induction hits)
    (auto simp: sources_of_def nonempty_urls_def List.map_filter_simps truthy_def or_empty_def
          split: option.splits)

lemma nonempty_urls_nonempty: "u \<in> set (nonempty_urls hits) \<Longrightarrow> u \<noteq> []"
  by (auto simp: nonempty_urls_def List.map_filter_def split: option.splits if_splits)

lemma sources_nonempty: "filter (\<lambda>u. u \<noteq> []) (sources_of hits) = nonempty_urls hits"
  unfolding sources_of_urls
  by (rule filter_True) (simp add: nonempty_urls_nonempty)

lemma set_nonempty_urls:
  "set (nonempty_urls hits) = {u. u \<noteq> [] \<and> (\<exists>h \<in> set hits. url (hit_meta h) = Some u)}"
proof -
  let ?f = "\<lambda>h::'a hit. case url (hit_meta h) of None \<Rightarrow> None | Some u \<Rightarrow> if u = [] then None else Some u"
  have f: "?f h = Some u \<longleftrightarrow> u \<noteq> [] \<and> url (hit_meta h) = Some u" for h u
    by (cases "url (hit_meta h)") auto
  have "set (List.map_filter ?f hits) = {u. \<exists>h \<in> set hits. ?f h = Some u}"
    by (induction hits) (auto simp: List.map_filter_simps split: option.splits)
  then show ?thesis
    unfolding nonempty_urls_def f by auto
qed

lemma shown_sources_eq: "shown_sources hs = take 5 (dedup_seen [] (nonempty_urls hs))"
  by (simp add: shown_sources_def sources_nonempty dict_fromkeys_dedup)

text \<open>
  C6. The printed source list is the list of the non-empty source URLs of the returned
  chunks in order of appearance, walked with every URL already seen skipped, cut to
  its first five entries; it has no duplicates, and its length is the smaller of 5 and
  the number of different non-empty URLs, whatever \<open>max_chunks\<close> is. The sources
  \<open>main\<close> prints are this list of the hits it hands to the chat completion.
\<close>

theorem shown_sources_dedup:
  "shown_sources hits = take 5 (dedup_seen [] (nonempty_urls hits))
   \<and> distinct (shown_sources hits)
   \<and> length (shown_sources hits) = min 5 (card {u. u \<noteq> [] \<and> (\<exists>h \<in> set hits. url (hit_meta h) = Some u)})
   \<and> (\<forall>hs ctx srcs. main_ask strptime api_key a store scores idxs = Inr (ChatCompletion hs ctx srcs)
        \<longrightarrow> srcs = take 5 (dedup_seen [] (nonempty_urls hs)))"
proof -
  note eq = shown_sources_eq
  have d: "distinct (dedup_seen [] (nonempty_urls hits))"
    by (rule distinct_dedup_seen)
  have "length (dedup_seen [] (nonempty_urls hits)) = card (set (dedup_seen [] (nonempty_urls hits)))"
    using d by (simp add: distinct_card)
  also have "\<dots> = card {u. u \<noteq> [] \<and> (\<exists>h \<in> set hits. url (hit_meta h) = Some u)}"
    by (simp add: set_dedup_seen set_nonempty_urls)
  finally have "length (dedup_seen [] (nonempty_urls hits))
      = card {u. u \<noteq> [] \<and> (\<exists>h \<in> set hits. url (hit_meta h) = Some u)}" .
  then have len: "length (shown_sources hits)
      = min 5 (card {u. u \<noteq> [] \<and> (\<exists>h \<in> set hits. url (hit_meta h) = Some u)})"
    by (simp add: eq min.commute)
  have m: "srcs = take 5 (dedup_seen [] (nonempty_urls hs))"
    if "main_ask strptime api_key a store scores idxs = Inr (ChatCompletion hs ctx srcs)"
    for hs ctx srcs
  proof -
    from that obtain hits3 where "hs = hits3" and "srcs = shown_sources hits3"
      by (auto simp: main_ask_def Let_def split: if_splits sum.splits)
    with eq show ?thesis by simp
  qed
  from eq [of hits] d len m show ?thesis
    by (auto simp: distinct_take)
qed

theorem shown_sources_dedup_witness:
  "shown_sources
     [(9::int, mk_chunk ''a'' None None None (Some ''u1'')), (8, mk_chunk ''b'' None None None (Some ''u2'')),
      (7, mk_chunk ''c'' None None None (Some ''u1'')), (6, mk_chunk ''d'' None None None None),
      (5, mk_chunk ''e'' None None None (Some [])), (4, mk_chunk ''f'' None None None (Some ''u3'')),
      (3, mk_chunk ''g'' None None None (Some ''u4'')), (2, mk_chunk ''h'' None None None (Some ''u5'')),
      (1, mk_chunk ''i'' None None None (Some ''u6'')), (0, mk_chunk ''j'' None None None (Some ''u7''))]
   = [''u1'', ''u2'', ''u3'', ''u4'', ''u5'']
   \<and> main_ask strptime_ymd (Some ''key'') (mk_args (Some ''aapl'') None True 8)
         [mk_chunk ''a'' (Some ''AAPL'') None (Some ''2024-01-01'') (Some ''u1'')] [9::int, 1] [0, -1]
       = Inr (ChatCompletion [(9, mk_chunk ''a'' (Some ''AAPL'') None (Some ''2024-01-01'') (Some ''u1''))]
                ''[AAPL | None | 2024-01-01] text'' [''u1''])
   \<and> [''u1''] = take 5 (dedup_seen []
         (nonempty_urls [(9::int, mk_chunk ''a'' (Some ''AAPL'') None (Some ''2024-01-01'') (Some ''u1''))]))"
proof -
  let ?hits = "[(9::int, mk_chunk ''a'' None None None (Some ''u1'')), (8, mk_chunk ''b'' None None None (Some ''u2'')),
      (7, mk_chunk ''c'' None None None (Some ''u1'')), (6, mk_chunk ''d'' None None None None),
      (5, mk_chunk ''e'' None None None (Some [])), (4, mk_chunk ''f'' None None None (Some ''u3'')),
      (3, mk_chunk ''g'' None None None (Some ''u4'')), (2, mk_chunk ''h'' None None None (Some ''u5'')),
      (1, mk_chunk ''i'' None None None (Some ''u6'')), (0, mk_chunk ''j'' None None None (Some ''u7''))]"
  let ?store = "[mk_chunk ''a'' (Some ''AAPL'') None (Some ''2024-01-01'') (Some ''u1'')]"
  have urls: "take 5 (dedup_seen [] (nonempty_urls ?hits)) = [''u1'', ''u2'', ''u3'', ''u4'', ''u5'']"
    by code_simp
  have run: "main_ask strptime_ymd (Some ''key'') (mk_args (Some ''aapl'') None True 8) ?store [9::int, 1] [0, -1]
       = Inr (ChatCompletion [(9, mk_chunk ''a'' (Some ''AAPL'') None (Some ''2024-01-01'') (Some ''u1''))]
                ''[AAPL | None | 2024-01-01] text'' [''u1''])"
    by code_simp
  note inst = shown_sources_dedup [of ?hits strptime_ymd "Some ''key''"
      "mk_args (Some ''aapl'') None True 8" ?store "[9::int, 1]" "[0, -1]"]
  from inst urls have a: "shown_sources ?hits = [''u1'', ''u2'', ''u3'', ''u4'', ''u5'']"
    by simp
  from inst run have b: "[''u1''] = take 5 (dedup_seen []
         (nonempty_urls [(9::int, mk_chunk ''a'' (Some ''AAPL'') None (Some ''2024-01-01'') (Some ''u1''))]))"
    by blast
  from a run b show ?thesis by blast
qed


section \<open>The incremental index update\<close>

lemma batches_take:
  "concat (map (\<lambda>j. take b (drop (j * b) xs)) [0..<n]) = take (n * b) xs"
proof (induction n)
  case 0
  then show ?case by simp
next
  case (Suc n)
  have "take (n * b) xs @ take b (drop (n * b) xs) = take (n * b + b) xs"
    by (simp add: take_add)
  with Suc show ?case by (simp add: add.commute)
qed

lemma batches_all:
  "concat (map (\<lambda>j. take 64 (drop (j * 64) xs)) [0..<(length xs + 63) div 64]) = xs"
proof -
  have "length xs \<le> (length xs + 63) div 64 * 64" by presburger
  then show ?thesis by (simp add: batches_take)
qed

lemma embed_texts_length:
  assumes "\<And>b. length (embed_batch b) = length b"
  shows "length (embed_texts embed_batch nrm texts) = length texts"
proof -
  have "length (concat (map (\<lambda>j. embed_batch (take 64 (drop (j * 64) texts))) js))
      = length (concat (map (\<lambda>j. take 64 (drop (j * 64) texts)) js))" for js
    by (induction js) (simp_all add: assms)
  from this [of "[0..<(length texts + 63) div 64]"] show ?thesis
    by (simp add: embed_texts_def comp_def batches_all)
qed

lemma embed_texts_pointwise:
  assumes "\<And>b. embed_batch b = map e b"
  shows "embed_texts embed_batch nrm texts = map (\<lambda>t. nrm (e t)) texts"
proof -
  have "concat (map (\<lambda>j. embed_batch (take 64 (drop (j * 64) texts))) js)
      = map e (concat (map (\<lambda>j. take 64 (drop (j * 64) texts)) js))" for js
    by (induction js) (simp_all add: assms)
  from this [of "[0..<(length texts + 63) div 64]"] show ?thesis
    by (simp add: embed_texts_def comp_def batches_all)
qed

text \<open>
  C7. Let the API key be present, the index and the store exist, the embedding
  service answer one vector per text, and every new chunk have a text. Then the
  update succeeds: the store becomes the old store followed by exactly the input
  chunks whose \<open>chunk_id\<close> is not in the old store, in input order; the index becomes
  the old index followed by as many vectors; when the service maps each text to its
  vector these are the normalised vectors of the new chunks in the same order; and if
  the index had as many vectors as the store had chunks, it still has.
\<close>

theorem main_update_appends:
  assumes ak: "truthy api_key"
    and one: "\<forall>b. length (embed_batch b) = length b"
    and tx: "\<forall>c \<in> set (new_items_of store chunks). item_text c \<noteq> None"
  shows "\<exists>vecs. main_update embed_batch nrm api_key chunks (Some index) (Some store)
             = Inr (index @ vecs, store @ new_items_of store chunks)
          \<and> length vecs = length (new_items_of store chunks)
          \<and> ((\<forall>b. embed_batch b = map e b) \<longrightarrow>
               vecs = map (\<lambda>c. nrm (e (or_empty (item_text c)))) (new_items_of store chunks))
          \<and> (length index = length store \<longrightarrow>
               length (index @ vecs) = length (store @ new_items_of store chunks))"
proof (cases "new_items_of store chunks = []")
  case True
  then have "main_update embed_batch nrm api_key chunks (Some index) (Some store)
      = Inr (index @ [], store @ new_items_of store chunks)"
    using ak by (simp add: main_update_def new_items_of_def Let_def)
  with True show ?thesis by auto
next
  case False
  let ?new = "new_items_of store chunks"
  let ?vecs = "embed_texts embed_batch nrm (map (\<lambda>x. or_empty (item_text x)) ?new)"
  have "None \<notin> set (map item_text ?new)" using tx by auto
  with False ak have run: "main_update embed_batch nrm api_key chunks (Some index) (Some store)
      = Inr (index @ ?vecs, store @ ?new)"
    by (simp add: main_update_def new_items_of_def Let_def)
  have len: "length ?vecs = length ?new"
    using one by (simp add: embed_texts_length)
  have pw: "?vecs = map (\<lambda>c. nrm (e (or_empty (item_text c)))) ?new"
    if "\<forall>b. embed_batch b = map e b"
  proof -
    from that have "embed_texts embed_batch nrm ts = map (\<lambda>t. nrm (e t)) ts" for ts
      by (intro embed_texts_pointwise) simp
    then show ?thesis by (simp add: comp_def)
  qed
  from run len pw show ?thesis by auto
qed

theorem main_update_appends_witness:
  "truthy (Some ''key'')
   \<and> (\<forall>b :: string list. length (map length b) = length b)
   \<and> main_update (map length) (\<lambda>v. v) (Some ''key'')
        [mk_chunk ''a'' None None None None, mk_chunk ''b'' None None None None,
         mk_chunk ''c'' None None None None]
        (Some [4]) (Some [mk_chunk ''a'' None None None None])
      = Inr ([4, 4, 4],
             [mk_chunk ''a'' None None None None, mk_chunk ''b'' None None None None,
              mk_chunk ''c'' None None None None])"
proof -
  let ?chunks = "[mk_chunk ''a'' None None None None, mk_chunk ''b'' None None None None,
         mk_chunk ''c'' None None None None]"
  let ?store = "[mk_chunk ''a'' None None None None]"
  have h1: "truthy (Some ''key'')" by code_simp
  have h2: "\<forall>b :: string list. length (map length b) = length b" by simp
  have new: "new_items_of ?store ?chunks
      = [mk_chunk ''b'' None None None None, mk_chunk ''c'' None None None None]"
    by code_simp
  have h3: "\<forall>c \<in> set (new_items_of ?store ?chunks). item_text c \<noteq> None"
    unfolding new by (simp add: mk_chunk_def)
  from main_update_appends [OF h1 h2 h3, of "\<lambda>v. v" "[4]" length]
  obtain vecs where
    run: "main_update (map length) (\<lambda>v. v) (Some ''key'') ?chunks (Some [4]) (Some ?store)
           = Inr ([4] @ vecs, ?store @ new_items_of ?store ?chunks)"
    and v: "vecs = map (\<lambda>c. length (or_empty (item_text c))) (new_items_of ?store ?chunks)"
    by blast
  have "vecs = [4, 4]"
    unfolding v new by (simp add: mk_chunk_def or_empty_def)
  with run new h1 h2 show ?thesis by simp
qed


section \<open>Cleaning\<close>

text \<open>
  C10. \<open>clean_one\<close> returns \<open>None\<close> exactly when \<open>raw_html\<close> is missing or empty or the
  extracted, cleaned text has fewer than 200 characters. A document it returns
  carries that text, of length at least 200, and so does every document \<open>main\<close>
  writes.
\<close>

theorem clean_one_drops:
  "(clean_one get_text item = None \<longleftrightarrow>
      raw_html item = None \<or> raw_html item = Some []
      \<or> length (html_to_text get_text (or_empty (raw_html item))) < 200)
   \<and> (\<forall>d. clean_one get_text item = Some d \<longrightarrow>
         clean_text d = html_to_text get_text (or_empty (raw_html item)) \<and> 200 \<le> length (clean_text d))
   \<and> (\<forall>d \<in> set (main_clean get_text items). 200 \<le> length (clean_text d))"
proof -
  have a: "clean_one get_text it = None \<longleftrightarrow>
      raw_html it = None \<or> raw_html it = Some []
      \<or> length (html_to_text get_text (or_empty (raw_html it))) < 200" for it
    by (cases "raw_html it") (auto simp: clean_one_def truthy_def Let_def)
  have b: "clean_text d = html_to_text get_text (or_empty (raw_html it)) \<and> 200 \<le> length (clean_text d)"
    if "clean_one get_text it = Some d" for d it
    using that by (auto simp: clean_one_def Let_def split: if_splits)
  have c: "200 \<le> length (clean_text d)" if "d \<in> set (main_clean get_text items)" for d
  proof -
    from that obtain it where "clean_one get_text it = Some d"
      by (auto simp: main_clean_def List.map_filter_def)
    then show ?thesis using b by blast
  qed
  from a [of item] b c show ?thesis by blast
qed

theorem clean_one_drops_witness:
  "raw_html (raw_example None) = None
   \<and> clean_one (\<lambda>x. x) (raw_example None) = None
   \<and> clean_one (\<lambda>x. x) (raw_example (Some (replicate 199 (CHR ''a'')))) = None
   \<and> clean_one (\<lambda>x. x) (raw_example (Some (replicate 200 (CHR ''a'')))) \<noteq> None
   \<and> 200 \<le> length (clean_text (the (clean_one (\<lambda>x. x) (raw_example (Some (replicate 200 (CHR ''a'')))))))"
proof -
  have h: "raw_html (raw_example None) = None"
    by (simp add: raw_example_def)
  have l199: "length (html_to_text (\<lambda>x. x) (or_empty (raw_html (raw_example (Some (replicate 199 (CHR ''a'')))))))
      < 200"
    by code_simp
  have l200: "\<not> length (html_to_text (\<lambda>x. x) (or_empty (raw_html (raw_example (Some (replicate 200 (CHR ''a'')))))))
      < 200"
    by code_simp
  have r200: "raw_html (raw_example (Some (replicate 200 (CHR ''a'')))) \<noteq> None
      \<and> raw_html (raw_example (Some (replicate 200 (CHR ''a'')))) \<noteq> Some []"
    by code_simp
  from clean_one_drops [of "\<lambda>x. x" "raw_example None" "[]"] h
  have a: "clean_one (\<lambda>x. x) (raw_example None) = None" by blast
  from clean_one_drops [of "\<lambda>x. x" "raw_example (Some (replicate 199 (CHR ''a'')))" "[]"] l199
  have b: "clean_one (\<lambda>x. x) (raw_example (Some (replicate 199 (CHR ''a'')))) = None" by blast
  note t = clean_one_drops [of "\<lambda>x. x" "raw_example (Some (replicate 200 (CHR ''a'')))" "[]"]
  from t l200 r200
  have c: "clean_one (\<lambda>x. x) (raw_example (Some (replicate 200 (CHR ''a'')))) \<noteq> None" by blast
  then obtain d where d: "clean_one (\<lambda>x. x) (raw_example (Some (replicate 200 (CHR ''a'')))) = Some d"
    by blast
  with t have "200 \<le> length (clean_text d)" by blast
  with d have e: "200 \<le> length (clean_text (the (clean_one (\<lambda>x. x) (raw_example (Some (replicate 200 (CHR ''a'')))))))"
    by simp
  from h a b c e show ?thesis by blast
qed


section \<open>Fixed-window chunking\<close>

lemma py_slice_window:
  "a \<le> b \<Longrightarrow> b \<le> length xs \<Longrightarrow> py_slice xs (int a) (int b) = take (b - a) (drop a xs)"
  by (simp add: py_slice_def Let_def min_def nat_diff_distrib' flip: of_nat_diff)

lemma strip_empty_iff: "strip s = [] \<longleftrightarrow> list_all is_space s"
proof -
  have "strip s = [] \<longleftrightarrow> (\<forall>c \<in> set (dropWhile is_space s). is_space c)"
    by (simp add: strip_def dropWhile_eq_Nil_conv)
  also have "\<dots> \<longleftrightarrow> dropWhile is_space s = []"
  proof
    assume a: "\<forall>c \<in> set (dropWhile is_space s). is_space c"
    show "dropWhile is_space s = []"
    proof (rule ccontr)
      assume ne: "dropWhile is_space s \<noteq> []"
      then have "\<not> is_space (hd (dropWhile is_space s))" by (rule hd_dropWhile)
      moreover from ne have "hd (dropWhile is_space s) \<in> set (dropWhile is_space s)" by simp
      ultimately show False using a by blast
    qed
  next
    assume e: "dropWhile is_space s = []"
    show "\<forall>c \<in> set (dropWhile is_space s). is_space c" unfolding e by simp
  qed
  also have "\<dots> \<longleftrightarrow> list_all is_space s"
    by (simp add: dropWhile_eq_Nil_conv list_all_iff)
  finally show ?thesis .
qed

lemma emitted_Cons:
  "emitted (win # wins) = (if strip win \<noteq> [] then strip win # emitted wins else emitted wins)"
  by (simp add: emitted_def strip_empty_iff)

lemma chunk_loop_windows:
  assumes "0 < s" "s \<le> w"
  shows "chunk_loop txt (int w) (int (w - s)) (int start) acc
         = Some (acc @ emitted (windows_from txt w s start))"
  using assms
proof (induction "txt" w s start arbitrary: acc rule: windows_from.induct)
  case (1 doc w s start)
  show ?case
  proof (cases "length doc \<le> start")
    case True
    then show ?thesis
      by (subst chunk_loop.simps, subst windows_from.simps) (simp add: emitted_def)
  next
    case lt: False
    show ?thesis
    proof (cases "length doc \<le> start + w")
      case True
      with lt have stop: "min (int start + int w) (int (length doc)) = int (length doc)" by simp
      from lt have sl: "py_slice doc (int start) (int (length doc)) = drop start doc"
        by (simp add: py_slice_window)
      from lt True "1.prems" show ?thesis
        by (subst chunk_loop.simps, subst windows_from.simps)
           (simp add: Let_def stop sl emitted_def strip_empty_iff del: of_nat_add)
    next
      case False
      with lt have stop: "min (int start + int w) (int (length doc)) = int start + int w" by simp
      from False have sl: "py_slice doc (int start) (int start + int w) = take w (drop start doc)"
        using py_slice_window [of start "start + w" doc] by simp
      from "1.prems" have nxt: "max 0 (int start + int w - int (w - s)) = int (start + s)"
        by (simp add: of_nat_diff)
      have ih: "chunk_loop doc (int w) (int (w - s)) (int (start + s)) acc'
         = Some (acc' @ emitted (windows_from doc w s (start + s)))" for acc'
        using lt False "1.prems" by (intro "1.IH") auto
      from lt False have ne: "int start + int w \<noteq> int (length doc)" by linarith
      from lt have lt': "int start < int (length doc)" by simp
      have wf: "windows_from doc w s start = take w (drop start doc) # windows_from doc w s (start + s)"
        using lt False "1.prems" by (subst windows_from.simps) simp
      have step: "chunk_loop doc (int w) (int (w - s)) (int start) acc
          = chunk_loop doc (int w) (int (w - s)) (int (start + s))
              (if strip (take w (drop start doc)) \<noteq> [] then acc @ [strip (take w (drop start doc))] else acc)"
        by (subst chunk_loop.simps) (simp only: Let_def lt' if_True stop sl ne if_False nxt)
      show ?thesis
        unfolding step ih wf emitted_Cons by simp
    qed
  qed
qed

lemma div_plus_self: "0 < (s::nat) \<Longrightarrow> (x + s) div s = x div s + 1"
  using div_add_self2 [of s x] by simp

lemma window_count_step:
  assumes "0 < s" "s \<le> w" "w < m"
  shows "window_count m w s = Suc (window_count (m - s) w s)"
proof (cases "m - s \<le> w")
  case True
  with assms have eq: "m - w + s - 1 = (m - w - 1) + s" and small: "m - w - 1 < s" by auto
  have "((m - w - 1) + s) div s = (m - w - 1) div s + 1"
    using assms(1) by (rule div_plus_self)
  with small eq have "(m - w + s - 1) div s = 1" by simp
  with assms True show ?thesis by (simp add: window_count_def)
next
  case False
  with assms have eq: "m - w + s - 1 = (m - w - 1) + s" and eq2: "m - s - w + s - 1 = m - w - 1"
    by auto
  have "((m - w - 1) + s) div s = (m - w - 1) div s + 1"
    using assms(1) by (rule div_plus_self)
  with eq eq2 have "(m - w + s - 1) div s = (m - s - w + s - 1) div s + 1" by simp
  with assms False show ?thesis by (simp add: window_count_def)
qed

lemma windows_from_closed:
  assumes "0 < s" "s \<le> w"
  shows "windows_from txt w s start
         = map (\<lambda>k. take w (drop (start + k * s) txt)) [0..<window_count (length txt - start) w s]"
  using assms
proof (induction "txt" w s start rule: windows_from.induct)
  case (1 doc w s start)
  show ?case
  proof (cases "length doc \<le> start")
    case True
    then show ?thesis
      by (subst windows_from.simps) (simp add: window_count_def)
  next
    case lt: False
    show ?thesis
    proof (cases "length doc \<le> start + w")
      case True
      with lt "1.prems" show ?thesis
        by (subst windows_from.simps) (simp add: window_count_def)
    next
      case False
      with "1.prems" have cnt: "window_count (length doc - start) w s
          = Suc (window_count (length doc - (start + s)) w s)"
        using window_count_step [of s w "length doc - start"] by simp
      have ih: "windows_from doc w s (start + s)
         = map (\<lambda>k. take w (drop (start + s + k * s) doc)) [0..<window_count (length doc - (start + s)) w s]"
        using lt False "1.prems" by (intro "1.IH") auto
      have "windows_from doc w s start = take w (drop start doc) # windows_from doc w s (start + s)"
        using lt False "1.prems" by (subst windows_from.simps) simp
      also have "\<dots> = map (\<lambda>k. take w (drop (start + k * s) doc)) [0..<Suc (window_count (length doc - (start + s)) w s)]"
        unfolding ih by (simp add: map_upt_Suc add.assoc del: upt_Suc)
      finally show ?thesis unfolding cnt .
    qed
  qed
qed

lemma chunk_text_windows:
  assumes "0 \<le> ov" "ov < cs"
  shows "chunk_text txt cs ov = Some (emitted (spec_windows txt (nat cs) (nat ov)))"
proof -
  define w where "w = nat cs"
  define s where "s = nat cs - nat ov"
  from assms have s: "0 < s" "s \<le> w" by (auto simp: w_def s_def)
  from assms have cs: "cs = int w" and ov: "ov = int (w - s)" and o: "nat ov = w - s"
    by (auto simp: w_def s_def)
  have "chunk_loop txt (int w) (int (w - s)) (int 0) [] = Some ([] @ emitted (windows_from txt w s 0))"
    using s by (rule chunk_loop_windows)
  moreover have "windows_from txt w s 0 = spec_windows txt w (w - s)"
    using s by (simp add: windows_from_closed spec_windows_def)
  ultimately have "chunk_loop txt (int w) (int (w - s)) 0 [] = Some (emitted (spec_windows txt w (w - s)))"
    by simp
  then show ?thesis
    unfolding chunk_text_def cs ov by (simp add: o [unfolded cs ov])
qed

lemma window_count_last:
  assumes "0 < s" "0 < n"
  shows "n \<le> (window_count n w s - 1) * s + w"
proof (cases "n \<le> w")
  case True
  with assms show ?thesis by (simp add: window_count_def)
next
  case False
  have "(n - w + s - 1) div s * s + (n - w + s - 1) mod s = n - w + s - 1" by simp
  moreover have "(n - w + s - 1) mod s < s" using assms(1) by simp
  ultimately have "n - w \<le> (n - w + s - 1) div s * s" by linarith
  with False assms show ?thesis by (simp add: window_count_def)
qed

lemma window_count_full:
  assumes "0 < s" "Suc k < window_count n w s"
  shows "k * s + w < n"
proof (cases "n = 0 \<or> n \<le> w")
  case True
  with assms show ?thesis by (auto simp: window_count_def split: if_splits)
next
  case False
  with assms have "k < (n - w + s - 1) div s" by (simp add: window_count_def)
  then have "Suc k \<le> (n - w + s - 1) div s" by simp
  then have "Suc k * s \<le> n - w + s - 1"
    using assms(1) by (simp add: less_eq_div_iff_mult_less_eq)
  with False assms(1) show ?thesis by simp
qed

text \<open>
  C8. For \<open>0 \<le> overlap < chunk_size\<close>, \<open>chunk_text\<close> returns, and what it returns are
  the windows of the text, each trimmed, without the windows that are white space
  only. Window \<open>k\<close> starts at offset \<open>k * (chunk_size - overlap)\<close> and is \<open>chunk_size\<close>
  characters long, or what remains. For a non-empty text the last window reaches the
  end of the text, so it is whatever remains from its start offset, unpadded; every
  window before the last ends before the end of the text.
\<close>

theorem chunk_text_fixed_windows:
  assumes "0 \<le> ov" "ov < cs"
  shows "chunk_text txt cs ov
      = Some (map strip (filter (\<lambda>win. \<not> list_all is_space win) (spec_windows txt (nat cs) (nat ov))))
    \<and> spec_windows txt (nat cs) (nat ov)
      = map (\<lambda>k. take (nat cs) (drop (k * nat (cs - ov)) txt))
          [0..<window_count (length txt) (nat cs) (nat (cs - ov))]
    \<and> (txt \<noteq> [] \<longrightarrow>
          0 < window_count (length txt) (nat cs) (nat (cs - ov))
          \<and> length txt \<le> (window_count (length txt) (nat cs) (nat (cs - ov)) - 1) * nat (cs - ov) + nat cs)
    \<and> (\<forall>k. Suc k < window_count (length txt) (nat cs) (nat (cs - ov))
          \<longrightarrow> k * nat (cs - ov) + nat cs < length txt)"
proof -
  from assms have step: "nat cs - nat ov = nat (cs - ov)" and pos: "0 < nat (cs - ov)"
    by auto
  have c1: "chunk_text txt cs ov
      = Some (map strip (filter (\<lambda>win. \<not> list_all is_space win) (spec_windows txt (nat cs) (nat ov))))"
    using chunk_text_windows [OF assms] by (simp add: emitted_def)
  have c2: "spec_windows txt (nat cs) (nat ov)
      = map (\<lambda>k. take (nat cs) (drop (k * nat (cs - ov)) txt))
          [0..<window_count (length txt) (nat cs) (nat (cs - ov))]"
    by (simp add: spec_windows_def step)
  have c3: "0 < window_count (length txt) (nat cs) (nat (cs - ov))
      \<and> length txt \<le> (window_count (length txt) (nat cs) (nat (cs - ov)) - 1) * nat (cs - ov) + nat cs"
    if "txt \<noteq> []"
  proof -
    from that have n: "0 < length txt" by simp
    then have "0 < window_count (length txt) (nat cs) (nat (cs - ov))"
      by (simp add: window_count_def)
    with window_count_last [OF pos n] show ?thesis by simp
  qed
  have c4: "k * nat (cs - ov) + nat cs < length txt"
    if "Suc k < window_count (length txt) (nat cs) (nat (cs - ov))" for k
    using pos that by (rule window_count_full)
  from c1 c2 c3 c4 show ?thesis by blast
qed

theorem chunk_text_fixed_windows_witness:
  "(0::int) \<le> 1 \<and> (1::int) < 3
   \<and> spec_windows ''ab   cd'' (nat 3) (nat 1) = [''ab '', ''   '', '' cd'']
   \<and> chunk_text ''ab   cd'' 3 1 = Some [''ab'', ''cd'']
   \<and> Suc 1 < window_count (length ''ab   cd'') (nat 3) (nat (3 - 1))
   \<and> 1 * nat (3 - 1) + nat 3 < length ''ab   cd''"
proof -
  have h1: "(0::int) \<le> 1" and h2: "(1::int) < 3" by simp_all
  have w: "spec_windows ''ab   cd'' (nat 3) (nat 1) = [''ab '', ''   '', '' cd'']"
    by code_simp
  have e: "map strip (filter (\<lambda>win. \<not> list_all is_space win) [''ab '', ''   '', '' cd'']) = [''ab'', ''cd'']"
    by code_simp
  have k: "Suc 1 < window_count (length ''ab   cd'') (nat 3) (nat (3 - 1))"
    by code_simp
  note inst = chunk_text_fixed_windows [OF h1 h2, of "''ab   cd''"]
  from inst have "chunk_text ''ab   cd'' 3 1
      = Some (map strip (filter (\<lambda>win. \<not> list_all is_space win) (spec_windows ''ab   cd'' (nat 3) (nat 1))))"
    by blast
  then have r: "chunk_text ''ab   cd'' 3 1 = Some [''ab'', ''cd'']"
    unfolding w e .
  from inst k have f: "1 * nat (3 - 1) + nat 3 < length ''ab   cd''"
    by blast
  from h1 h2 w r k f show ?thesis by blast
qed


section \<open>Termination of chunking\<close>

lemma chunk_loop_returns:
  assumes "ov < cs"
  shows "\<exists>r. chunk_loop txt cs ov start acc = Some r"
proof (induction "nat (int (length txt) - start)" arbitrary: start acc rule: less_induct)
  case less
  let ?n = "int (length txt)"
  show ?case
  proof (cases "start < ?n")
    case False
    then show ?thesis by (subst chunk_loop.simps) simp
  next
    case True
    let ?stop = "min (start + cs) ?n"
    let ?chunk = "strip (py_slice txt start ?stop)"
    let ?acc = "if ?chunk \<noteq> [] then acc @ [?chunk] else acc"
    show ?thesis
    proof (cases "?stop = ?n")
      case True
      with \<open>start < ?n\<close> show ?thesis
        by (subst chunk_loop.simps) (simp add: Let_def)
    next
      case False
      then have stop: "?stop = start + cs" by linarith
      with assms have "start < max 0 (?stop - ov)" by linarith
      with True have "nat (?n - max 0 (?stop - ov)) < nat (?n - start)" by linarith
      then have "\<exists>r. chunk_loop txt cs ov (max 0 (?stop - ov)) ?acc = Some r"
        by (rule less.hyps)
      moreover have "chunk_loop txt cs ov start acc = chunk_loop txt cs ov (max 0 (?stop - ov)) ?acc"
        using True False by (subst chunk_loop.simps) (simp only: Let_def if_True if_False)
      ultimately show ?thesis by simp
    qed
  qed
qed

lemma chunk_loop_stuck:
  assumes "cs \<le> ov"
  shows "chunk_loop (replicate (nat cs + 1) c) cs ov 0 acc = None"
proof -
  define doc where "doc = replicate (nat cs + 1) c"
  have lt: "(0::int) < int (length doc)" by (simp add: doc_def)
  have stop: "min (0 + cs) (int (length doc)) = cs" by (simp add: doc_def)
  have ne: "cs \<noteq> int (length doc)" by (simp add: doc_def)
  from assms have nxt: "max 0 (cs - ov) = 0" by simp
  have never: "\<not> (t = doc \<and> a = cs \<and> b = ov \<and> st = 0)"
    if r: "chunk_loop t a b st ac = Some y" for t a b st ac y
  proof (rule chunk_loop.raw_induct
      [where P = "\<lambda>t a b st ac y. \<not> (t = doc \<and> a = cs \<and> b = ov \<and> st = 0)", OF _ r])
    fix f :: "string \<Rightarrow> int \<Rightarrow> int \<Rightarrow> int \<Rightarrow> string list \<Rightarrow> string list option"
    fix t a b st ac y
    assume IH: "\<And>t' a' b' st' ac' y'. f t' a' b' st' ac' = Some y'
        \<Longrightarrow> \<not> (t' = doc \<and> a' = cs \<and> b' = ov \<and> st' = 0)"
    assume step: "(let n = int (length t) in
        if st < n then
          (let stop = min (st + a) n;
               chunk = strip (py_slice t st stop);
               chunks' = (if chunk \<noteq> [] then ac @ [chunk] else ac)
           in if stop = n then Some chunks' else f t a b (max 0 (stop - b)) chunks')
        else Some ac) = Some y"
    show "\<not> (t = doc \<and> a = cs \<and> b = ov \<and> st = 0)"
    proof
      assume stuck: "t = doc \<and> a = cs \<and> b = ov \<and> st = 0"
      then have t: "t = doc" and a: "a = cs" and b: "b = ov" and st: "st = 0" by simp_all
      from step obtain ac' where "f doc cs ov 0 ac' = Some y"
        unfolding t a b st
        by (simp only: Let_def lt if_True stop ne if_False nxt)
      then have "\<not> (doc = doc \<and> cs = cs \<and> ov = ov \<and> (0::int) = 0)"
        by (rule IH)
      then show False by simp
    qed
  qed
  have "chunk_loop doc cs ov 0 acc = None"
  proof (cases "chunk_loop doc cs ov 0 acc")
    case None
    then show ?thesis .
  next
    case (Some y)
    then have False using never by blast
    then show ?thesis ..
  qed
  then show ?thesis by (simp only: doc_def)
qed

lemma chunk_text_returns_iff:
  "(\<forall>txt. \<exists>r. chunk_text txt cs ov = Some r) \<longleftrightarrow> ov < cs"
proof
  assume all: "\<forall>txt. \<exists>r. chunk_text txt cs ov = Some r"
  show "ov < cs"
  proof (rule ccontr)
    assume "\<not> ov < cs"
    then have "cs \<le> ov" by simp
    then have "chunk_loop (replicate (nat cs + 1) (CHR ''a'')) cs ov 0 [] = None"
      by (rule chunk_loop_stuck)
    then have "chunk_text (replicate (nat cs + 1) (CHR ''a'')) cs ov = None"
      by (simp only: chunk_text_def)
    with all show False by (metis option.distinct(1))
  qed
next
  assume "ov < cs"
  then show "\<forall>txt. \<exists>r. chunk_text txt cs ov = Some r"
    by (simp add: chunk_text_def chunk_loop_returns)
qed

text \<open>
  C9, as the code has it. \<open>chunk_text\<close> returns for every text if and only if
  \<open>overlap < chunk_size\<close>; in particular it returns whenever
  \<open>0 \<le> overlap < chunk_size\<close>.
\<close>

theorem chunk_text_terminates_iff:
  "((\<forall>txt. \<exists>r. chunk_text txt cs ov = Some r) \<longleftrightarrow> ov < cs)
   \<and> (0 \<le> ov \<and> ov < cs \<longrightarrow> (\<exists>r. chunk_text txt cs ov = Some r))"
proof -
  have a: "(\<forall>txt. \<exists>r. chunk_text txt cs ov = Some r) \<longleftrightarrow> ov < cs"
    by (rule chunk_text_returns_iff)
  have b: "\<exists>r. chunk_text txt cs ov = Some r" if "0 \<le> ov \<and> ov < cs"
    using that by (simp add: chunk_text_def chunk_loop_returns)
  from a b show ?thesis by blast
qed

theorem chunk_text_terminates_iff_witness:
  "(0::int) \<le> 2 \<and> (2::int) < 5 \<and> (-5::int) < 10
   \<and> chunk_text ''hello world  x'' 5 2 = Some [''hello'', ''lo wo'', ''world'', ''ld  x'']
   \<and> (\<exists>r. chunk_text ''hello world  x'' 5 2 = Some r)
   \<and> (\<forall>txt. \<exists>r. chunk_text txt 10 (-5) = Some r)"
proof -
  have h: "(0::int) \<le> 2 \<and> (2::int) < 5" and g: "(-5::int) < 10" by simp_all
  have run: "chunk_text ''hello world  x'' 5 2 = Some [''hello'', ''lo wo'', ''world'', ''ld  x'']"
    by code_simp
  from chunk_text_terminates_iff [of 5 2 "''hello world  x''"] h
  have a: "\<exists>r. chunk_text ''hello world  x'' 5 2 = Some r" by blast
  from chunk_text_terminates_iff [of 10 "-5"] g
  have b: "\<forall>txt. \<exists>r. chunk_text txt 10 (-5) = Some r" by blast
  from h g run a b show ?thesis by blast
qed

text \<open>
  C9 as the specification states it fails: the precondition \<open>0 \<le> overlap\<close> is not
  necessary. With window 10 and overlap -5 the precondition is violated, and
  \<open>chunk_text\<close> returns for every text.
\<close>

theorem chunk_text_precondition_counterexample:
  "(\<forall>txt. chunk_text txt 10 (-5) \<noteq> None) \<and> \<not> (0 \<le> (-5::int) \<and> (-5::int) < 10)"
proof -
  have "\<exists>r. chunk_text doc 10 (-5) = Some r" for doc
    unfolding chunk_text_def by (rule chunk_loop_returns) simp
  then show ?thesis by auto
qed


section \<open>Most-recent selection\<close>

lemma dedup_seen_snoc:
  "dedup_seen seen (xs @ [k])
   = dedup_seen seen xs @ (if k \<in> set seen \<union> set xs then [] else [k])"
  by (induction xs arbitrary: seen) auto

lemma by_url_append_map:
  "distinct ks \<Longrightarrow>
   by_url_append k h (map (\<lambda>j. (j, g j)) ks)
   = (if k \<in> set ks then map (\<lambda>j. (j, if j = k then g j @ [h] else g j)) ks
      else map (\<lambda>j. (j, g j)) ks @ [(k, [h])])"
  by (induction ks) auto

lemma group_by_url_snoc:
  "group_by_url (hits @ [h]) = by_url_append (url (hit_meta h)) h (group_by_url hits)"
  by (simp add: group_by_url_def)

lemma group_by_url_eq:
  "group_by_url hits
   = map (\<lambda>k. (k, url_group hits k)) (dedup_seen [] (map (\<lambda>h. url (hit_meta h)) hits))"
proof (induction hits rule: rev_induct)
  case Nil
  then show ?case by (simp add: group_by_url_def)
next
  case (snoc h hits)
  let ?k = "url (hit_meta h)"
  let ?ks = "dedup_seen [] (map (\<lambda>h. url (hit_meta h)) hits)"
  have d: "distinct ?ks" by (rule distinct_dedup_seen)
  have s: "set ?ks = (\<lambda>h. url (hit_meta h)) ` set hits" by (simp add: set_dedup_seen)
  show ?case
  proof (cases "?k \<in> set ?ks")
    case True
    then have ks: "dedup_seen [] (map (\<lambda>h. url (hit_meta h)) (hits @ [h])) = ?ks"
      using s by (simp add: dedup_seen_snoc)
    show ?thesis
      unfolding group_by_url_snoc snoc.IH ks
      using True by (simp add: by_url_append_map [OF d] url_group_def)
  next
    case False
    then have ks: "dedup_seen [] (map (\<lambda>h. url (hit_meta h)) (hits @ [h])) = ?ks @ [?k]"
      using s by (simp add: dedup_seen_snoc)
    from False s have "\<And>x. x \<in> set hits \<Longrightarrow> url (hit_meta x) \<noteq> ?k"
      by (metis imageI)
    then have none: "filter (\<lambda>x. url (hit_meta x) = ?k) hits = []"
      by (simp add: filter_empty_conv)
    from False have ne: "\<forall>j \<in> set ?ks. ?k \<noteq> j" by blast
    show ?thesis
      unfolding group_by_url_snoc snoc.IH ks
      using False none ne by (simp add: by_url_append_map [OF d] url_group_def)
  qed
qed

lemma group_dmax_dates:
  "group_dmax strptime items
   = (if dates_of strptime items = [] then None else Some (Max (set (dates_of strptime items))))"
proof (cases "dates_of strptime items")
  case Nil
  then show ?thesis by (simp add: group_dmax_def dates_of_def)
next
  case (Cons d ds)
  have "fold max ds d = Max (set (d # ds))" by (simp only: Max.set_eq_fold)
  with Cons show ?thesis by (simp add: group_dmax_def dates_of_def)
qed

lemma set_dates_of:
  "set (dates_of strptime items)
   = {d. \<exists>x \<in> set items. parse_date strptime (filing_date (hit_meta x)) = Some d}"
  unfolding dates_of_def
  by (induction items) (auto simp: List.map_filter_simps split: option.splits)

lemma group_dmax_Some_iff:
  "group_dmax strptime items = Some D \<longleftrightarrow>
     D \<in> set (dates_of strptime items) \<and> (\<forall>d \<in> set (dates_of strptime items). d \<le> D)"
proof (cases "dates_of strptime items = []")
  case True
  then show ?thesis by (simp add: group_dmax_dates)
next
  case False
  then have ne: "set (dates_of strptime items) \<noteq> {}" by simp
  have fin: "finite (set (dates_of strptime items))" by simp
  show ?thesis
    using False Max_eq_iff [OF fin ne, of D] by (auto simp: group_dmax_dates)
qed

lemma group_dmax_None_iff:
  "group_dmax strptime items = None \<longleftrightarrow> dates_of strptime items = []"
  by (simp add: group_dmax_dates)

lemma select_best_snoc:
  "select_best strptime (es @ [e]) = best_step strptime (select_best strptime es) e"
  by (simp add: select_best_def)

lemma select_best_inv:
  "case select_best strptime es of
     (bu, None) \<Rightarrow> bu = None \<and> (\<forall>e \<in> set es. group_dmax strptime (snd e) = None)
   | (bu, Some b) \<Rightarrow>
       (\<exists>pre e post. es = pre @ e # post \<and> fst e = bu \<and> group_dmax strptime (snd e) = Some b
          \<and> (\<forall>x \<in> set pre. \<forall>d. group_dmax strptime (snd x) = Some d \<longrightarrow> d < b)
          \<and> (\<forall>x \<in> set post. \<forall>d. group_dmax strptime (snd x) = Some d \<longrightarrow> d \<le> b))"
proof (induction es rule: rev_induct)
  case Nil
  then show ?case by (simp add: select_best_def)
next
  case (snoc e es)
  obtain bu bd where st: "select_best strptime es = (bu, bd)" by (cases "select_best strptime es")
  show ?case
  proof (cases "group_dmax strptime (snd e)")
    case None
    then have same: "select_best strptime (es @ [e]) = (bu, bd)"
      by (simp add: select_best_snoc st best_step_def)
    show ?thesis
    proof (cases bd)
      case n: None
      with snoc.IH st None same show ?thesis by simp
    next
      case (Some b)
      with snoc.IH st obtain pre e0 post where
        "es = pre @ e0 # post" "fst e0 = bu" "group_dmax strptime (snd e0) = Some b"
        "\<forall>x \<in> set pre. \<forall>d. group_dmax strptime (snd x) = Some d \<longrightarrow> d < b"
        "\<forall>x \<in> set post. \<forall>d. group_dmax strptime (snd x) = Some d \<longrightarrow> d \<le> b"
        by auto
      with None have "es @ [e] = pre @ e0 # (post @ [e]) \<and> fst e0 = bu
          \<and> group_dmax strptime (snd e0) = Some b
          \<and> (\<forall>x \<in> set pre. \<forall>d. group_dmax strptime (snd x) = Some d \<longrightarrow> d < b)
          \<and> (\<forall>x \<in> set (post @ [e]). \<forall>d. group_dmax strptime (snd x) = Some d \<longrightarrow> d \<le> b)"
        by auto
      then show ?thesis unfolding same Some by (simp only: prod.case option.case) blast
    qed
  next
    case dm: (Some dmax)
    show ?thesis
    proof (cases bd)
      case None
      with dm have new: "select_best strptime (es @ [e]) = (fst e, Some dmax)"
        by (simp add: select_best_snoc st best_step_def)
      from snoc.IH st None have "\<forall>x \<in> set es. group_dmax strptime (snd x) = None" by simp
      with dm have "es @ [e] = es @ e # [] \<and> fst e = fst e
          \<and> group_dmax strptime (snd e) = Some dmax
          \<and> (\<forall>x \<in> set es. \<forall>d. group_dmax strptime (snd x) = Some d \<longrightarrow> d < dmax)
          \<and> (\<forall>x \<in> set ([] :: (string option \<times> 'b hit list) list). \<forall>d. group_dmax strptime (snd x) = Some d \<longrightarrow> d \<le> dmax)"
        by simp
      then show ?thesis unfolding new by (simp only: prod.case option.case) blast
    next
      case (Some b)
      from snoc.IH st Some obtain pre e0 post where dec:
        "es = pre @ e0 # post" "fst e0 = bu" "group_dmax strptime (snd e0) = Some b"
        "\<forall>x \<in> set pre. \<forall>d. group_dmax strptime (snd x) = Some d \<longrightarrow> d < b"
        "\<forall>x \<in> set post. \<forall>d. group_dmax strptime (snd x) = Some d \<longrightarrow> d \<le> b"
        by auto
      show ?thesis
      proof (cases "b < dmax")
        case True
        with dm Some have new: "select_best strptime (es @ [e]) = (fst e, Some dmax)"
          by (simp add: select_best_snoc st best_step_def)
        from dec True have "\<forall>x \<in> set es. \<forall>d. group_dmax strptime (snd x) = Some d \<longrightarrow> d < dmax"
          by (auto intro: less_trans le_less_trans)
        with dm have "es @ [e] = es @ e # [] \<and> fst e = fst e
          \<and> group_dmax strptime (snd e) = Some dmax
          \<and> (\<forall>x \<in> set es. \<forall>d. group_dmax strptime (snd x) = Some d \<longrightarrow> d < dmax)
          \<and> (\<forall>x \<in> set ([] :: (string option \<times> 'b hit list) list). \<forall>d. group_dmax strptime (snd x) = Some d \<longrightarrow> d \<le> dmax)"
          by simp
        then show ?thesis unfolding new by (simp only: prod.case option.case) blast
      next
        case False
        with dm Some have same: "select_best strptime (es @ [e]) = (bu, Some b)"
          by (simp add: select_best_snoc st best_step_def)
        from dec dm False have "es @ [e] = pre @ e0 # (post @ [e]) \<and> fst e0 = bu
          \<and> group_dmax strptime (snd e0) = Some b
          \<and> (\<forall>x \<in> set pre. \<forall>d. group_dmax strptime (snd x) = Some d \<longrightarrow> d < b)
          \<and> (\<forall>x \<in> set (post @ [e]). \<forall>d. group_dmax strptime (snd x) = Some d \<longrightarrow> d \<le> b)"
          by auto
        then show ?thesis unfolding same by (simp only: prod.case option.case) blast
      qed
    qed
  qed
qed

lemma find_map_key:
  "find Q (map f xs) = map_option f (find (\<lambda>x. Q (f x)) xs)"
  by (induction xs) auto

lemma find_dedup_seen:
  "find Q (dedup_seen seen xs) = find (\<lambda>x. Q x \<and> x \<notin> set seen) xs"
proof (induction xs arbitrary: seen)
  case Nil
  then show ?case by simp
next
  case (Cons x xs)
  have "find (\<lambda>y. Q y \<and> y \<notin> set (x # seen)) xs = find (\<lambda>y. Q y \<and> y \<notin> set seen) xs"
    if "\<not> Q x"
  proof (rule find_cong [OF refl])
    fix y assume "y \<in> set xs"
    from that show "(Q y \<and> y \<notin> set (x # seen)) = (Q y \<and> y \<notin> set seen)" by auto
  qed
  with Cons show ?case by auto
qed

lemma find_first:
  "\<forall>x \<in> set pre. \<not> Q x \<Longrightarrow> Q y \<Longrightarrow> find Q (pre @ y # post) = Some y"
  by (induction pre) auto

lemma foldl_best_step_none:
  "\<forall>e \<in> set es. group_dmax strptime (snd e) = None \<Longrightarrow> foldl (best_step strptime) st es = st"
  by (induction es arbitrary: st) (auto simp: best_step_def)

lemma dates_of_url_group:
  "set (dates_of strptime (url_group hits k)) \<subseteq> set (dates_of strptime hits)"
  by (auto simp: set_dates_of url_group_def)

lemma select_best_first_latest:
  "(group_dmax strptime hits = None \<longrightarrow>
      select_best strptime (group_by_url hits) = (None, None))
   \<and> (\<forall>D. group_dmax strptime hits = Some D \<longrightarrow>
        (\<exists>h. find (\<lambda>h. group_dmax strptime (url_group hits (url (hit_meta h))) = Some D) hits = Some h
           \<and> select_best strptime (group_by_url hits) = (url (hit_meta h), Some D)))"
proof -
  let ?key = "\<lambda>h::'b hit. url (hit_meta h)"
  let ?ks = "dedup_seen [] (map ?key hits)"
  let ?es = "group_by_url hits"
  have es: "?es = map (\<lambda>k. (k, url_group hits k)) ?ks" by (rule group_by_url_eq)
  have ks: "set ?ks = ?key ` set hits" by (simp add: set_dedup_seen)
  have dm: "group_dmax strptime (snd e) = group_dmax strptime (url_group hits (fst e))"
    if "e \<in> set ?es" for e
    using that unfolding es by auto
  have c1: "select_best strptime ?es = (None, None)" if none: "group_dmax strptime hits = None"
  proof -
    from none have "dates_of strptime hits = []" by (simp add: group_dmax_None_iff)
    then have "dates_of strptime (url_group hits k) = []" for k
      using dates_of_url_group [of strptime hits k] by auto
    then have "\<forall>e \<in> set ?es. group_dmax strptime (snd e) = None"
      unfolding es by (auto simp: group_dmax_None_iff)
    then show ?thesis
      unfolding select_best_def by (rule foldl_best_step_none)
  qed
  have c2: "\<exists>h. find (\<lambda>h. group_dmax strptime (url_group hits (?key h)) = Some D) hits = Some h
           \<and> select_best strptime ?es = (?key h, Some D)"
    if some: "group_dmax strptime hits = Some D" for D
  proof -
    from some have Din: "D \<in> set (dates_of strptime hits)"
      and Dmax: "\<forall>d \<in> set (dates_of strptime hits). d \<le> D"
      by (simp_all add: group_dmax_Some_iff)
    from Din obtain h0 where h0: "h0 \<in> set hits"
      "parse_date strptime (filing_date (hit_meta h0)) = Some D"
      by (auto simp: set_dates_of)
    let ?e0 = "(?key h0, url_group hits (?key h0))"
    from h0 ks have e0: "?e0 \<in> set ?es" unfolding es by auto
    from h0 have "h0 \<in> set (url_group hits (?key h0))"
      by (simp add: url_group_def)
    with h0(2) have "D \<in> set (dates_of strptime (url_group hits (?key h0)))"
      unfolding set_dates_of by blast
    moreover have "\<forall>d \<in> set (dates_of strptime (url_group hits (?key h0))). d \<le> D"
      using Dmax dates_of_url_group [of strptime hits "?key h0"] by blast
    ultimately have dm0: "group_dmax strptime (snd ?e0) = Some D"
      by (simp add: group_dmax_Some_iff)
    obtain bu bd where st: "select_best strptime ?es = (bu, bd)"
      by (cases "select_best strptime ?es")
    note inv = select_best_inv [where strptime = strptime and es = ?es]
    have "bd \<noteq> None"
    proof
      assume "bd = None"
      with inv st have "\<forall>e \<in> set ?es. group_dmax strptime (snd e) = None" by simp
      with e0 dm0 show False by (metis option.distinct(1))
    qed
    then obtain b where b: "bd = Some b" by blast
    with inv st obtain pre e post where dec:
      "?es = pre @ e # post" "fst e = bu" "group_dmax strptime (snd e) = Some b"
      "\<forall>x \<in> set pre. \<forall>d. group_dmax strptime (snd x) = Some d \<longrightarrow> d < b"
      "\<forall>x \<in> set post. \<forall>d. group_dmax strptime (snd x) = Some d \<longrightarrow> d \<le> b"
      by auto
    from dec(1) have ein: "e \<in> set ?es" by simp
    with dec(3) have "group_dmax strptime (url_group hits (fst e)) = Some b" by (simp add: dm)
    then have "b \<in> set (dates_of strptime (url_group hits (fst e)))"
      by (simp add: group_dmax_Some_iff)
    with dates_of_url_group [of strptime hits "fst e"] Dmax have "b \<le> D" by blast
    moreover have "D \<le> b"
    proof -
      from e0 dec(1) have "?e0 \<in> set pre \<or> ?e0 = e \<or> ?e0 \<in> set post" by auto
      with dec dm0 show ?thesis by (auto intro: less_imp_le)
    qed
    ultimately have bD: "b = D" by simp
    let ?Q = "\<lambda>k. group_dmax strptime (url_group hits k) = Some D"
    have keys: "?ks = map fst pre @ bu # map fst post"
    proof -
      have "map fst ?es = ?ks" unfolding es by (simp add: comp_def)
      with dec(1,2) show ?thesis by (metis list.simps(9) map_append)
    qed
    have pre_no: "\<forall>k \<in> set (map fst pre). \<not> ?Q k"
    proof
      fix k assume "k \<in> set (map fst pre)"
      then obtain x where x: "x \<in> set pre" "fst x = k" by auto
      with dec(1) have "x \<in> set ?es" by simp
      then have "group_dmax strptime (snd x) = group_dmax strptime (url_group hits k)"
        using x by (simp add: dm)
      with dec(4) x bD show "\<not> ?Q k" by auto
    qed
    have q_bu: "?Q bu"
      using dec(2,3) ein bD by (simp add: dm)
    have "find ?Q ?ks = Some bu"
      unfolding keys using pre_no q_bu by (rule find_first)
    then have "find ?Q (map ?key hits) = Some bu"
      by (simp add: find_dedup_seen)
    then have "map_option ?key (find (\<lambda>h. ?Q (?key h)) hits) = Some bu"
      by (simp add: find_map_key)
    then obtain h where "find (\<lambda>h. ?Q (?key h)) hits = Some h" "?key h = bu" by auto
    with st b bD show ?thesis by auto
  qed
  from c1 c2 show ?thesis by blast
qed

lemma map_of_keyed: "k \<in> set ks \<Longrightarrow> map_of (map (\<lambda>j. (j, g j)) ks) k = Some (g k)"
  by (induction ks) auto

lemma by_url_get_group:
  assumes "h \<in> set hits"
  shows "by_url_get (group_by_url hits) (url (hit_meta h)) = url_group hits (url (hit_meta h))"
proof -
  let ?ks = "dedup_seen [] (map (\<lambda>h. url (hit_meta h)) hits)"
  from assms have "url (hit_meta h) \<in> set ?ks" by (simp add: set_dedup_seen)
  then have "map_of (map (\<lambda>k. (k, url_group hits k)) ?ks) (url (hit_meta h))
      = Some (url_group hits (url (hit_meta h)))"
    by (rule map_of_keyed)
  then show ?thesis by (simp add: by_url_get_def group_by_url_eq)
qed

lemma find_Some_in: "find P xs = Some x \<Longrightarrow> x \<in> set xs \<and> P x"
  by (induction xs) (auto split: if_splits)

text \<open>
  C5. When some hit has a parseable filing date, let \<open>D\<close> be the latest one. The
  selection loop ends with the date \<open>D\<close> and with the URL of the first hit, in hit
  order, whose group has \<open>D\<close> as its latest date: of the groups that tie on the latest
  date, the one met first wins. When that URL is a non-empty string the candidates
  become exactly its group. When no hit has a parseable date the loop selects nothing
  and the candidates stay as they are. The selection is a function of the hit list.
\<close>

theorem most_recent_tie_first_group:
  "(group_dmax strptime hits = None \<longrightarrow>
      select_best strptime (group_by_url hits) = (None, None)
      \<and> most_recent_hits strptime hits = hits)
   \<and> (\<forall>D. group_dmax strptime hits = Some D \<longrightarrow>
        (\<exists>h. find (\<lambda>h. group_dmax strptime (url_group hits (url (hit_meta h))) = Some D) hits = Some h
           \<and> select_best strptime (group_by_url hits) = (url (hit_meta h), Some D)
           \<and> (truthy (url (hit_meta h)) \<longrightarrow>
                most_recent_hits strptime hits = url_group hits (url (hit_meta h)))))"
proof -
  note sel = select_best_first_latest [of strptime hits]
  have c1: "select_best strptime (group_by_url hits) = (None, None)
      \<and> most_recent_hits strptime hits = hits"
    if "group_dmax strptime hits = None"
  proof -
    from sel that have s: "select_best strptime (group_by_url hits) = (None, None)" by blast
    then show ?thesis by (simp add: most_recent_hits_def truthy_def)
  qed
  have c2: "\<exists>h. find (\<lambda>h. group_dmax strptime (url_group hits (url (hit_meta h))) = Some D) hits = Some h
           \<and> select_best strptime (group_by_url hits) = (url (hit_meta h), Some D)
           \<and> (truthy (url (hit_meta h)) \<longrightarrow>
                most_recent_hits strptime hits = url_group hits (url (hit_meta h)))"
    if "group_dmax strptime hits = Some D" for D
  proof -
    from sel that obtain h where
      f: "find (\<lambda>h. group_dmax strptime (url_group hits (url (hit_meta h))) = Some D) hits = Some h"
      and s: "select_best strptime (group_by_url hits) = (url (hit_meta h), Some D)"
      by blast
    from f have "h \<in> set hits" by (blast dest: find_Some_in)
    then have g: "by_url_get (group_by_url hits) (url (hit_meta h)) = url_group hits (url (hit_meta h))"
      by (rule by_url_get_group)
    have "most_recent_hits strptime hits = url_group hits (url (hit_meta h))"
      if "truthy (url (hit_meta h))"
      using that s g by (simp add: most_recent_hits_def)
    with f s show ?thesis by blast
  qed
  from c1 c2 show ?thesis by blast
qed

theorem most_recent_tie_first_group_witness:
  "group_dmax strptime_ymd tie_hits = Some (2024, 2, 1)
   \<and> find (\<lambda>h. group_dmax strptime_ymd (url_group tie_hits (url (hit_meta h))) = Some (2024, 2, 1)) tie_hits
       = Some (9, mk_chunk ''A'' None None (Some ''2024-01-01'') (Some ''u1''))
   \<and> select_best strptime_ymd (group_by_url tie_hits) = (Some ''u1'', Some (2024, 2, 1))
   \<and> most_recent_hits strptime_ymd tie_hits
       = [(9, mk_chunk ''A'' None None (Some ''2024-01-01'') (Some ''u1'')),
          (6, mk_chunk ''E'' None None (Some ''2024-02-01'') (Some ''u1''))]"
proof -
  let ?A = "(9::int, mk_chunk ''A'' None None (Some ''2024-01-01'') (Some ''u1''))"
  have d: "group_dmax strptime_ymd tie_hits = Some (2024, 2, 1)" by code_simp
  have f: "find (\<lambda>h. group_dmax strptime_ymd (url_group tie_hits (url (hit_meta h))) = Some (2024, 2, 1)) tie_hits
       = Some ?A"
    by code_simp
  have k: "url (hit_meta ?A) = Some ''u1''" by code_simp
  have t: "truthy (Some ''u1'')" by code_simp
  have g: "url_group tie_hits (Some ''u1'')
      = [?A, (6, mk_chunk ''E'' None None (Some ''2024-02-01'') (Some ''u1''))]"
    by code_simp
  from most_recent_tie_first_group [of strptime_ymd tie_hits] d obtain h where
    h: "find (\<lambda>h. group_dmax strptime_ymd (url_group tie_hits (url (hit_meta h))) = Some (2024, 2, 1)) tie_hits = Some h"
    and s: "select_best strptime_ymd (group_by_url tie_hits) = (url (hit_meta h), Some (2024, 2, 1))"
    and m: "truthy (url (hit_meta h)) \<longrightarrow>
              most_recent_hits strptime_ymd tie_hits = url_group tie_hits (url (hit_meta h))"
    by blast
  from h f have "h = ?A" by simp
  with s m k t g d f show ?thesis by simp
qed

text \<open>
  C1 on a hit list the code can receive. Hit A has no source URL and the filing date
  2024-02-01, hit B has the URL \<open>u1\<close> and the date 2024-01-01. The group of the missing
  URL wins the selection with the date 2024-02-01, and its chunks are A alone; but the
  test \<open>if best_url\<close> reads the missing URL as no selection, and the candidates stay
  A and B, chunks of two different sources.
\<close>

theorem most_recent_missing_url_keeps_all:
  "most_recent_hits strptime_ymd
     [(9::int, mk_chunk ''A'' None None (Some ''2024-02-01'') None),
      (8, mk_chunk ''B'' None None (Some ''2024-01-01'') (Some ''u1''))]
   = [(9, mk_chunk ''A'' None None (Some ''2024-02-01'') None),
      (8, mk_chunk ''B'' None None (Some ''2024-01-01'') (Some ''u1''))]
   \<and> select_best strptime_ymd (group_by_url
        [(9::int, mk_chunk ''A'' None None (Some ''2024-02-01'') None),
         (8, mk_chunk ''B'' None None (Some ''2024-01-01'') (Some ''u1''))])
      = (None, Some (2024, 2, 1))
   \<and> url_group
        [(9::int, mk_chunk ''A'' None None (Some ''2024-02-01'') None),
         (8, mk_chunk ''B'' None None (Some ''2024-01-01'') (Some ''u1''))] None
      = [(9, mk_chunk ''A'' None None (Some ''2024-02-01'') None)]"
  by code_simp

end
